theory Spec2Isabelle
  imports Main "HOL-Library.AList" "HOL-Library.Multiset" "HOL-Library.Word"
    "HOL-Library.Product_Lexorder"
begin

unbundle bit_operations_syntax

section \<open>JavaScript objects keyed by numbers\<close>

text \<open>
  \<open>NodeMap\<close> and \<open>NodeReferenceMap\<close> are plain JavaScript objects indexed by a note
  number.  Such an object is an association list in insertion order with distinct keys:
  \<open>obj[k]\<close> is \<open>map_of obj k\<close>, the assignment \<open>obj[k] = v\<close> is \<open>AList.update k v obj\<close>
  (in place for an existing key, appended for a new one).  Numbers are modelled as
  \<open>int\<close>.  Enumeration of the own keys (what lodash's \<open>map\<close> and \<open>reduce\<close> walk
  over) lists the array-index keys, the integers from \<open>0\<close> to \<open>2\<^sup>3\<^sup>2 - 2\<close>, in ascending
  order first and every other key in insertion order after them.
\<close>

type_synonym 'v jsobj = "(int \<times> 'v) list"

definition hasOwnProperty :: "'v jsobj \<Rightarrow> int \<Rightarrow> bool" where
  "hasOwnProperty obj k \<longleftrightarrow> map_of obj k \<noteq> None"

definition isArrayIndex :: "int \<Rightarrow> bool" where
  "isArrayIndex k \<longleftrightarrow> 0 \<le> k \<and> k < 4294967295"

definition ownEntries :: "'v jsobj \<Rightarrow> (int \<times> 'v) list" where
  "ownEntries obj =
     sort_key fst (filter (\<lambda>p. isArrayIndex (fst p)) obj)
       @ filter (\<lambda>p. \<not> isArrayIndex (fst p)) obj"

definition ownValues :: "'v jsobj \<Rightarrow> 'v list" where
  "ownValues obj = map snd (ownEntries obj)"

text \<open>lodash's \<open>sortBy\<close> is a stable sort, ascending in the key the iteratee returns.\<close>

definition sortBy :: "('a \<Rightarrow> int) \<Rightarrow> 'a list \<Rightarrow> 'a list" where
  "sortBy f xs = sort_key f xs"

text \<open>\<open>Array.prototype.indexOf\<close>: the first position of the element, \<open>-1\<close> without one.\<close>

fun indexOf :: "int list \<Rightarrow> int \<Rightarrow> int" where
  "indexOf [] x = - 1"
| "indexOf (y # ys) x =
     (if y = x then 0 else (let i = indexOf ys x in if i < 0 then - 1 else i + 1))"

text \<open>
  The string of a number, as a template literal and a property key have it, for the
  integers: the decimal digits below \<open>10\<^sup>2\<^sup>1\<close> in magnitude, and from there on the
  exponent form, whose digits end with the last one that is not zero and have a dot after
  the first when there are several.  These are the digits JavaScript prints for an integer
  of up to 15 significant digits; a longer one it rounds to a double first, which the
  integers here leave out.
\<close>

function digits :: "int \<Rightarrow> int list" where
  "digits n = (if n < 10 then [n] else digits (n div 10) @ [n mod 10])"
  by pat_completeness auto
termination
  by (relation "measure nat") auto

declare digits.simps [simp del]

definition digitChar :: "int \<Rightarrow> char" where
  "digitChar d = ''0123456789'' ! nat d"

definition decimal :: "int \<Rightarrow> string" where
  "decimal n = map digitChar (digits n)"

definition exponential :: "int \<Rightarrow> string" where
  "exponential n =
     (let ds = digits n;
          significant = rev (dropWhile (\<lambda>d. d = 0) (rev ds))
      in (case significant of
            [] \<Rightarrow> []
          | d # rest \<Rightarrow>
              digitChar d # (if rest = [] then [] else CHR ''.'' # map digitChar rest))
         @ ''e+'' @ decimal (int (length ds) - 1))"

definition numberToString :: "int \<Rightarrow> string" where
  "numberToString x =
     (let s = (if \<bar>x\<bar> < 1000000000000000000000 then decimal \<bar>x\<bar> else exponential \<bar>x\<bar>)
      in if x < 0 then CHR ''-'' # s else s)"

text \<open>lodash turns a path string into the list of its segments: it cuts at every dot.\<close>

fun stringToPath :: "string \<Rightarrow> string list" where
  "stringToPath [] = [[]]"
| "stringToPath (c # cs) =
     (if c = CHR ''.'' then [] # stringToPath cs
      else (case stringToPath cs of
              [] \<Rightarrow> [[c]]
            | segment # segments \<Rightarrow> (c # segment) # segments))"

section \<open>Data model\<close>

text \<open>
  Modelled from the spec: the sequence and event types are declared outside the files at
  hand.  A sequence has a duration and an ordered list of events; an event has a subtype,
  of which only the note-on one matters to the graph, a note number and an offset, and
  its other fields are ignored.  The numbers are integers here.
\<close>

datatype MidiIoEventSubtype = noteOn | noteOff | otherSubtype string

record MidiIoEvent =
  subtype :: MidiIoEventSubtype
  noteNumber :: int
  offset :: int

record MidiSequence =
  duration :: int
  events :: "MidiIoEvent list"

record SequenceElement =
  eventIndex :: nat
  sequence :: MidiSequence

text \<open>
  A \<open>NodeReference\<close> points to a node of the same graph.  Nodes live in the graph's map
  under their note number and a node's \<open>note\<close> never changes, so the reference is the
  note number of the node it points to: \<open>reference.node.note\<close> is \<open>node reference\<close>.
\<close>

record NodeReference =
  count :: int
  node :: int

type_synonym NodeReferenceMap = "NodeReference jsobj"

text \<open>
  Modelled from the spec: a ranked note element, a note with a count, is declared outside
  the files at hand; the code builds it with the fields \<open>count\<close> and \<open>note\<close>.
\<close>

record RankedNoteElement =
  count :: int
  "note" :: int

type_synonym RankedNoteList = "RankedNoteElement list"

record Node =
  count :: int
  "note" :: int
  pathsIn :: NodeReferenceMap
  pathsOut :: NodeReferenceMap
  sequences :: "SequenceElement list"

type_synonym NodeMap = "Node jsobj"

text \<open>The fields \<open>_map\<close> and \<open>_insertSequence\<close> of the class are \<open>nodeMap\<close> and
  \<open>insertSequence\<close>.\<close>

record RankedSequenceGraph =
  name :: string
  nodeMap :: NodeMap
  insertSequence :: "int list"

definition "constructor" :: "string \<Rightarrow> RankedSequenceGraph" where
  "constructor nm = \<lparr>name = nm, nodeMap = [], insertSequence = []\<rparr>"

section \<open>addSequence\<close>

text \<open>\<open>_ensureMappedValue\<close> leaves the object as it is when the key is there and stores
  the factory's value otherwise; the value it returns is the one under the key afterwards.\<close>

definition ensureMappedValue :: "'v jsobj \<Rightarrow> int \<Rightarrow> 'v \<Rightarrow> 'v jsobj" where
  "ensureMappedValue m key factory =
     (if hasOwnProperty m key then m else AList.update key factory m)"

text \<open>\<open>_ensureMappedValue(refs, key, () => ({count: 0, node})).count++\<close>\<close>

definition countReference :: "NodeReferenceMap \<Rightarrow> int \<Rightarrow> NodeReferenceMap" where
  "countReference refs key =
     AList.map_entry key (\<lambda>r. r\<lparr>NodeReference.count := NodeReference.count r + 1\<rparr>)
       (ensureMappedValue refs key \<lparr>NodeReference.count = 0, node = key\<rparr>)"

text \<open>
  The recursion of a call that returns; what the call stack does to a long sequence is
  in \<open>addEventIndexOn\<close> below.
  Every node is created under its own note number and its \<open>note\<close> is never assigned
  again, so the node \<open>prev\<close> is passed on as its note number, and \<open>node.note\<close> is the
  note number of the event.
\<close>

function addEventIndex ::
  "MidiSequence \<Rightarrow> nat \<Rightarrow> int option \<Rightarrow> RankedSequenceGraph \<Rightarrow> RankedSequenceGraph" where
  "addEventIndex sq index prev g =
     (if index < length (events sq) then
        let ev = events sq ! index;
            n = noteNumber ev;
            m1 = ensureMappedValue (nodeMap g) n
                   \<lparr>Node.count = 0, Node.note = n, Node.pathsIn = [], Node.pathsOut = [],
                     sequences = []\<rparr>;
            m2 = AList.map_entry n
                   (\<lambda>nd. nd\<lparr>Node.count := Node.count nd + 1,
                      sequences := sequences nd @ [\<lparr>eventIndex = index, sequence = sq\<rparr>]\<rparr>)
                   m1;
            ins = insertSequence g @ [n];
            m4 = (case prev of
                    None \<Rightarrow> m2
                  | Some p \<Rightarrow>
                      let m3 = AList.map_entry n
                                 (\<lambda>nd. nd\<lparr>Node.pathsIn := countReference (Node.pathsIn nd) p\<rparr>)
                                 m2
                      in AList.map_entry p
                           (\<lambda>nd. nd\<lparr>Node.pathsOut := countReference (Node.pathsOut nd) n\<rparr>)
                           m3)
        in addEventIndex sq (index + 1) (Some n) (g\<lparr>nodeMap := m4, insertSequence := ins\<rparr>)
      else g)"
  by pat_completeness auto
termination
  by (relation "measure (\<lambda>(sq, index, prev, g). length (events sq) - index)") auto

declare addEventIndex.simps [simp del]

text \<open>The graph keeps a copy of the sequence that holds its note-on events only; the
  event indices it records are positions in that copy.\<close>

definition addSequence :: "MidiSequence \<Rightarrow> RankedSequenceGraph \<Rightarrow> RankedSequenceGraph" where
  "addSequence sq g =
     addEventIndex (sq\<lparr>events := filter (\<lambda>ev. subtype ev = noteOn) (events sq)\<rparr>) 0 None g"

text \<open>A series of \<open>addSequence\<close> calls that return, in the order of the list.\<close>

definition addSequences ::
  "MidiSequence list \<Rightarrow> RankedSequenceGraph \<Rightarrow> RankedSequenceGraph" where
  "addSequences ss g = foldl (\<lambda>g' s. addSequence s g') g ss"

section \<open>Ranking queries\<close>

definition getAllNotes :: "RankedSequenceGraph \<Rightarrow> RankedNoteList" where
  "getAllNotes g =
     sortBy (\<lambda>e. 0 - RankedNoteElement.count e)
       (map (\<lambda>nd. \<lparr>RankedNoteElement.count = Node.count nd,
                    RankedNoteElement.note = Node.note nd\<rparr>)
          (ownValues (nodeMap g)))"

definition getInsertSequence :: "RankedSequenceGraph \<Rightarrow> int list" where
  "getInsertSequence g = insertSequence g"

record NotePaths =
  pathsIn :: RankedNoteList
  pathsOut :: RankedNoteList

text \<open>
  \<open>_.get(this._map, `${note}.${path}`)\<close> walks the segments of the string made of the
  note's string, a dot and the property name.  A note whose string has no dot is one
  segment, the key of its node: the walk finds the node (the object is keyed by these
  strings, so this is the lookup of the note) and then reads its property.  A note whose
  string has a dot gives two segments of its own: the first is the key of another note,
  and the second, which starts with a digit, is asked of the node found there; no node
  has a property of that name, and the walk ends with \<open>undefined\<close>.
\<close>

definition lodashGet ::
  "NodeMap \<Rightarrow> int \<Rightarrow> (Node \<Rightarrow> NodeReferenceMap) \<Rightarrow> NodeReferenceMap option" where
  "lodashGet m n path =
     (case stringToPath (numberToString n) of
        [key] \<Rightarrow> map_option path (map_of m n)
      | _ \<Rightarrow> None)"

definition build ::
  "RankedSequenceGraph \<Rightarrow> int \<Rightarrow> int list \<Rightarrow> (Node \<Rightarrow> NodeReferenceMap) \<Rightarrow> RankedNoteList"
  where
  "build g n exclude path =
     (case lodashGet (nodeMap g) n path of
        None \<Rightarrow> []
      | Some pathData \<Rightarrow>
          sortBy (\<lambda>element. 0 - RankedNoteElement.count element)
            (foldl (\<lambda>result reference.
                      if indexOf exclude (node reference) < 0
                      then result @ [\<lparr>RankedNoteElement.count = NodeReference.count reference,
                                      RankedNoteElement.note = node reference\<rparr>]
                      else result)
               [] (ownValues pathData)))"

definition getNotePaths :: "RankedSequenceGraph \<Rightarrow> int \<Rightarrow> int list \<Rightarrow> NotePaths" where
  "getNotePaths g n exclude =
     \<lparr>NotePaths.pathsIn = build g n exclude Node.pathsIn,
      NotePaths.pathsOut = build g n exclude Node.pathsOut\<rparr>"

section \<open>Sequence retrieval\<close>

text \<open>Reading a property of \<open>undefined\<close> raises a \<open>TypeError\<close>; an array read out of
  range is \<open>undefined\<close>.  A call that the call stack has no room for raises a
  \<open>RangeError\<close>.\<close>

datatype error = TypeError | RangeError

definition offsetAt :: "MidiIoEvent list \<Rightarrow> nat \<Rightarrow> error + int" where
  "offsetAt es i = (if i < length es then Inr (offset (es ! i)) else Inl TypeError)"

definition partialSequence :: "SequenceElement \<Rightarrow> error + MidiSequence" where
  "partialSequence element =
     (let s = sequence element in
      case offsetAt (events s) (eventIndex element) of
        Inl e \<Rightarrow> Inl e
      | Inr o1 \<Rightarrow>
         (case offsetAt (events s) 0 of
            Inl e \<Rightarrow> Inl e
          | Inr o0 \<Rightarrow>
              Inr \<lparr>duration = duration s - (o1 - o0),
                   events = drop (eventIndex element) (events s)\<rparr>))"

fun mapM :: "('a \<Rightarrow> error + 'b) \<Rightarrow> 'a list \<Rightarrow> error + 'b list" where
  "mapM f [] = Inr []"
| "mapM f (x # xs) =
     (case f x of
        Inl e \<Rightarrow> Inl e
      | Inr y \<Rightarrow> (case mapM f xs of Inl e \<Rightarrow> Inl e | Inr ys \<Rightarrow> Inr (y # ys)))"

definition getSequencesForNote ::
  "RankedSequenceGraph \<Rightarrow> int \<Rightarrow> bool \<Rightarrow> error + MidiSequence list" where
  "getSequencesForNote g n partial =
     (case map_of (nodeMap g) n of
        None \<Rightarrow> Inr []
      | Some nd \<Rightarrow>
          mapM (\<lambda>element. if partial = False then Inr (sequence element)
                           else partialSequence element)
            (sequences nd))"

section \<open>Traversal\<close>

text \<open>
  Modelled from the spec: the enumeration \<open>TraverseAttributes\<close> is declared outside the
  files at hand.  The spec calls its members bit flags that combine, so they are two
  distinct single bits.  The operator \<open>&\<close> works on 32-bit integers and its result counts
  as true when it is not zero.
\<close>

definition DisallowReuse :: "32 word" where
  "DisallowReuse = 1"

definition ResetAfterExhaust :: "32 word" where
  "ResetAfterExhaust = 2"

text \<open>
  Modelled from the spec: the parameter of \<open>traverse\<close> is declared outside the files at
  hand.  It holds \<open>attributes\<close>, \<open>maxCount\<close>, \<open>startNote\<close> and the policy \<open>next\<close>,
  which receives the current note with its two ranked lists and returns a ranked note
  element or nothing.
  The selection policy \<open>next\<close> belongs to the caller and may keep state of its own
  (a random generator, a call log), so it takes that state and returns it with its choice.
\<close>

record TraverseNextParam =
  "note" :: int
  pathsIn :: RankedNoteList
  pathsOut :: RankedNoteList

type_synonym 's policy = "'s \<Rightarrow> TraverseNextParam \<Rightarrow> RankedNoteElement option \<times> 's"

definition nextParam :: "int \<Rightarrow> NotePaths \<Rightarrow> TraverseNextParam" where
  "nextParam n paths =
     \<lparr>TraverseNextParam.note = n,
      TraverseNextParam.pathsIn = NotePaths.pathsIn paths,
      TraverseNextParam.pathsOut = NotePaths.pathsOut paths\<rparr>"

text \<open>
  One visit of \<open>_push\<close>, from the update of \<open>exclude\<close> to the choice of the next
  element: it returns that element with the new \<open>exclude\<close> and the policy's new state.
\<close>

definition visit ::
  "RankedSequenceGraph \<Rightarrow> 32 word \<Rightarrow> 's policy \<Rightarrow> int \<Rightarrow> int list \<Rightarrow> 's
     \<Rightarrow> RankedNoteElement option \<times> int list \<times> 's" where
  "visit g attributes nxt n exclude s =
     (let exclude1 = (if attributes AND DisallowReuse \<noteq> 0 then exclude @ [n] else exclude);
          (nextElement, s1) = nxt s (nextParam n (getNotePaths g n exclude1))
      in if nextElement = None \<and> attributes AND ResetAfterExhaust \<noteq> 0
         then (let (nextElement2, s2) = nxt s1 (nextParam n (getNotePaths g n []))
               in (nextElement2, [], s2))
         else (nextElement, exclude1, s1))"

text \<open>
  \<open>_push\<close> stops when \<open>index === maxCount\<close>, which an \<open>index\<close> counting up from \<open>0\<close>
  never meets for a negative \<open>maxCount\<close>: the recursion need not end, and \<open>None\<close> is
  the call that does not return.  A result is the list of notes with the policy's last
  state.
\<close>

partial_function (option) push ::
  "RankedSequenceGraph \<Rightarrow> 32 word \<Rightarrow> int \<Rightarrow> 's policy
     \<Rightarrow> RankedNoteElement option \<Rightarrow> int \<Rightarrow> int list \<Rightarrow> 's \<Rightarrow> (int list \<times> 's) option" where
  "push g attributes maxCount nxt noteElement index exclude s =
     (if index = maxCount \<or> noteElement = None then Some ([], s)
      else
        let n = RankedNoteElement.note (the noteElement) in
        case visit g attributes nxt n exclude s of
          (nextElement, exclude', s') \<Rightarrow>
            Option.bind (push g attributes maxCount nxt nextElement (index + 1) exclude' s')
              (\<lambda>(ns, s''). Some (n # ns, s'')))"

declare push.simps [code]

text \<open>The start element is the node of \<open>startNote\<close>, read as a ranked note element.\<close>

definition traverse ::
  "RankedSequenceGraph \<Rightarrow> 32 word \<Rightarrow> int \<Rightarrow> 's policy \<Rightarrow> int \<Rightarrow> 's
     \<Rightarrow> (int list \<times> 's) option" where
  "traverse g attributes maxCount nxt startNote s =
     push g attributes maxCount nxt
       (map_option (\<lambda>nd. \<lparr>RankedNoteElement.count = Node.count nd,
                              RankedNoteElement.note = Node.note nd\<rparr>)
          (map_of (nodeMap g) startNote))
       0 [] s"

section \<open>Observations on a graph\<close>

text \<open>
  The graph after the body of \<open>_addEventIndex\<close> has run for one index, before the
  recursive call; \<open>addEventIndex_step\<close> below states that the recursion is made of it.
\<close>

definition addEvent ::
  "MidiSequence \<Rightarrow> nat \<Rightarrow> int option \<Rightarrow> RankedSequenceGraph \<Rightarrow> RankedSequenceGraph" where
  "addEvent sq index prev g =
     (let n = noteNumber (events sq ! index);
          m1 = ensureMappedValue (nodeMap g) n
                 \<lparr>Node.count = 0, Node.note = n, Node.pathsIn = [], Node.pathsOut = [],
                   sequences = []\<rparr>;
          m2 = AList.map_entry n
                 (\<lambda>nd. nd\<lparr>Node.count := Node.count nd + 1,
                    sequences := sequences nd @ [\<lparr>eventIndex = index, sequence = sq\<rparr>]\<rparr>)
                 m1;
          m4 = (case prev of
                  None \<Rightarrow> m2
                | Some p \<Rightarrow>
                    AList.map_entry p
                      (\<lambda>nd. nd\<lparr>Node.pathsOut := countReference (Node.pathsOut nd) n\<rparr>)
                      (AList.map_entry n
                         (\<lambda>nd. nd\<lparr>Node.pathsIn := countReference (Node.pathsIn nd) p\<rparr>)
                         m2))
      in g\<lparr>nodeMap := m4, insertSequence := insertSequence g @ [n]\<rparr>)"

text \<open>The copy of a sequence that \<open>addSequence\<close> works on and stores.\<close>

definition noteOnSequence :: "MidiSequence \<Rightarrow> MidiSequence" where
  "noteOnSequence sq = sq\<lparr>events := filter (\<lambda>ev. subtype ev = noteOn) (events sq)\<rparr>"


text \<open>The occurrences a note's node records; none for a note without a node.\<close>

definition sequencesOf :: "RankedSequenceGraph \<Rightarrow> int \<Rightarrow> SequenceElement list" where
  "sequencesOf g k = (case map_of (nodeMap g) k of None \<Rightarrow> [] | Some nd \<Rightarrow> sequences nd)"

text \<open>The occurrences of a note in a stored sequence, from an index on.\<close>

definition occurrences :: "MidiSequence \<Rightarrow> nat \<Rightarrow> int \<Rightarrow> SequenceElement list" where
  "occurrences sq i k =
     map (\<lambda>j. \<lparr>eventIndex = j, sequence = sq\<rparr>)
       (filter (\<lambda>j. noteNumber (events sq ! j) = k) [i ..< length (events sq)])"


text \<open>The sum of the \<open>count\<close> fields of all nodes.\<close>

definition countSum :: "RankedSequenceGraph \<Rightarrow> int" where
  "countSum g = sum_list (map (\<lambda>p. Node.count (snd p)) (nodeMap g))"

text \<open>The number of note-on events in a series of sequences.\<close>

definition noteOnCount :: "MidiSequence list \<Rightarrow> nat" where
  "noteOnCount ss =
     sum_list (map (\<lambda>sq. length (filter (\<lambda>ev. subtype ev = noteOn) (events sq))) ss)"

text \<open>The note and the count of a note's node.\<close>

definition noteCount :: "RankedSequenceGraph \<Rightarrow> int \<Rightarrow> (int \<times> int) option" where
  "noteCount g k = map_option (\<lambda>nd. (Node.note nd, Node.count nd)) (map_of (nodeMap g) k)"

text \<open>
  The node map has one entry for each note of the insertion log, under distinct keys, and
  the node of a note holds the note and the number of times the log has it.
\<close>

definition wellKeyed :: "RankedSequenceGraph \<Rightarrow> bool" where
  "wellKeyed g \<longleftrightarrow>
     distinct (map fst (nodeMap g))
     \<and> (\<forall>k. noteCount g k =
            (if k \<in> set (insertSequence g)
             then Some (k, int (count_list (insertSequence g) k)) else None))"

text \<open>The note numbers of the note-on events of a series of sequences, in order.\<close>

definition ingestedNotes :: "MidiSequence list \<Rightarrow> int list" where
  "ingestedNotes ss =
     concat (map (\<lambda>sq. map noteNumber (filter (\<lambda>ev. subtype ev = noteOn) (events sq))) ss)"

text \<open>The ranking with ties broken by the note number: a higher count first, and the
  lower note first among equal counts.\<close>

definition rankedBefore :: "RankedNoteElement \<Rightarrow> RankedNoteElement \<Rightarrow> bool" where
  "rankedBefore a b \<longleftrightarrow>
     RankedNoteElement.count b < RankedNoteElement.count a
     \<or> (RankedNoteElement.count a = RankedNoteElement.count b
        \<and> RankedNoteElement.note a < RankedNoteElement.note b)"

definition rankKey :: "RankedNoteElement \<Rightarrow> int \<times> int" where
  "rankKey e = (- RankedNoteElement.count e, RankedNoteElement.note e)"

section \<open>addSequence and the call stack\<close>

text \<open>
  \<open>_addEventIndex\<close> calls itself once for every note-on event, each call inside the one
  before, and the call stack of the engine has room for so many frames only.  The call
  that no longer fits raises a \<open>RangeError\<close>, and \<open>addSequence\<close> ends with it and
  leaves the graph as it is at that moment.  How much room there is depends on the engine
  and on the caller.  A call stack is described here by the number of frames of
  \<open>_addEventIndex\<close> that fit with every call they make, and by the call that is the
  first not to fit: \<open>AddEventIndex\<close> when it is the call that would open the next frame
  (for the first frame, or when \<open>addSequence\<close> has no room for its own calls, it is
  \<open>addSequence\<close> that makes it), and else the call at that place inside the next frame.
\<close>

datatype callSite =
  EnsureNode | PushSequences | PushInsertSequence | EnsurePathsIn | EnsurePathsOut
  | AddEventIndex

record callStack =
  room :: nat
  overflow :: callSite

text \<open>
  The graph that the body of \<open>_addEventIndex\<close> leaves when the call at the given site
  raises: the statements before that call have run.  A frame without \<open>prev\<close> does not
  make the two calls for the paths; the call it makes next is the one to
  \<open>_addEventIndex\<close>.
\<close>

definition addEventBefore ::
  "callSite \<Rightarrow> MidiSequence \<Rightarrow> nat \<Rightarrow> int option \<Rightarrow> RankedSequenceGraph
     \<Rightarrow> RankedSequenceGraph" where
  "addEventBefore site sq index prev g =
     (let n = noteNumber (events sq ! index);
          m1 = ensureMappedValue (nodeMap g) n
                 \<lparr>Node.count = 0, Node.note = n, Node.pathsIn = [], Node.pathsOut = [],
                   sequences = []\<rparr>;
          counted = AList.map_entry n (\<lambda>nd. nd\<lparr>Node.count := Node.count nd + 1\<rparr>) m1;
          m2 = AList.map_entry n
                 (\<lambda>nd. nd\<lparr>sequences :=
                    sequences nd @ [\<lparr>eventIndex = index, sequence = sq\<rparr>]\<rparr>)
                 counted;
          ins = insertSequence g @ [n]
      in case site of
           EnsureNode \<Rightarrow> g
         | PushSequences \<Rightarrow> g\<lparr>nodeMap := counted\<rparr>
         | PushInsertSequence \<Rightarrow> g\<lparr>nodeMap := m2\<rparr>
         | EnsurePathsIn \<Rightarrow>
             (case prev of
                None \<Rightarrow> addEvent sq index prev g
              | Some p \<Rightarrow> g\<lparr>nodeMap := m2, insertSequence := ins\<rparr>)
         | EnsurePathsOut \<Rightarrow>
             (case prev of
                None \<Rightarrow> addEvent sq index prev g
              | Some p \<Rightarrow>
                  g\<lparr>nodeMap :=
                      AList.map_entry n
                        (\<lambda>nd. nd\<lparr>Node.pathsIn := countReference (Node.pathsIn nd) p\<rparr>) m2,
                    insertSequence := ins\<rparr>)
         | AddEventIndex \<Rightarrow> addEvent sq index prev g)"

text \<open>
  The call of \<open>_addEventIndex\<close> on a call stack.  The frame of an index is the frame
  number \<open>index\<close>, as \<open>addSequence\<close> starts with index 0; the last frame is the one that
  finds no event left and calls nothing.  The result is the error, if one was raised, and
  the graph that is left.
\<close>

function addEventIndexOn ::
  "callStack \<Rightarrow> MidiSequence \<Rightarrow> nat \<Rightarrow> int option \<Rightarrow> RankedSequenceGraph
     \<Rightarrow> error option \<times> RankedSequenceGraph" where
  "addEventIndexOn stack sq index prev g =
     (if index = room stack \<and> overflow stack = AddEventIndex then (Some RangeError, g)
      else if index < length (events sq) then
        if index < room stack
        then addEventIndexOn stack sq (index + 1) (Some (noteNumber (events sq ! index)))
               (addEvent sq index prev g)
        else (Some RangeError, addEventBefore (overflow stack) sq index prev g)
      else (None, g))"
  by pat_completeness auto
termination
  by (relation "measure (\<lambda>(stack, sq, index, prev, g). length (events sq) - index)") auto

declare addEventIndexOn.simps [simp del]

definition addSequenceOn ::
  "callStack \<Rightarrow> MidiSequence \<Rightarrow> RankedSequenceGraph \<Rightarrow> error option \<times> RankedSequenceGraph"
  where
  "addSequenceOn stack sq g =
     addEventIndexOn stack
       (sq\<lparr>events := filter (\<lambda>ev. subtype ev = noteOn) (events sq)\<rparr>) 0 None g"

text \<open>A series of \<open>addSequence\<close> calls, each on the call stack it finds; the series ends
  with the first error.\<close>

fun addSequencesOn ::
  "(callStack \<times> MidiSequence) list \<Rightarrow> RankedSequenceGraph
     \<Rightarrow> error option \<times> RankedSequenceGraph" where
  "addSequencesOn [] g = (None, g)"
| "addSequencesOn ((stack, sq) # calls) g =
     (case addSequenceOn stack sq g of
        (None, g') \<Rightarrow> addSequencesOn calls g'
      | (Some e, g') \<Rightarrow> (Some e, g'))"

text \<open>The call fits: the stack has room for a frame for every note-on event of the
  sequence and for the last frame.\<close>

definition fits :: "callStack \<times> MidiSequence \<Rightarrow> bool" where
  "fits call \<longleftrightarrow>
     length (filter (\<lambda>ev. subtype ev = noteOn) (events (snd call))) < room (fst call)"

section \<open>Example inputs\<close>

definition noteOnEvent :: "int \<Rightarrow> int \<Rightarrow> MidiIoEvent" where
  "noteOnEvent n t = \<lparr>subtype = noteOn, noteNumber = n, offset = t\<rparr>"

definition noteOffEvent :: "int \<Rightarrow> int \<Rightarrow> MidiIoEvent" where
  "noteOffEvent n t = \<lparr>subtype = noteOff, noteNumber = n, offset = t\<rparr>"

text \<open>A clip that plays 60, 62, 60, each note switched off before the next one starts.\<close>

definition exampleSequence :: MidiSequence where
  "exampleSequence =
     \<lparr>duration = 30,
      events = [noteOnEvent 60 0, noteOffEvent 60 5, noteOnEvent 62 10, noteOffEvent 62 15,
                noteOnEvent 60 20, noteOffEvent 60 25]\<rparr>"

definition exampleGraph :: RankedSequenceGraph where
  "exampleGraph = addSequences [exampleSequence] (constructor ''example'')"

text \<open>Two clips with the same notes in different orders: 60 twice, 62 and 64 once.\<close>

definition tieSequence :: MidiSequence where
  "tieSequence =
     \<lparr>duration = 40,
      events = [noteOnEvent 64 0, noteOnEvent 60 10, noteOnEvent 62 20, noteOnEvent 60 30]\<rparr>"

definition tieSequenceReordered :: MidiSequence where
  "tieSequenceReordered =
     \<lparr>duration = 40,
      events = [noteOnEvent 60 0, noteOnEvent 62 10, noteOnEvent 60 20, noteOnEvent 64 30]\<rparr>"

text \<open>Two clips with note numbers that are no array indices.\<close>

definition negativeSequence :: MidiSequence where
  "negativeSequence = \<lparr>duration = 2, events = [noteOnEvent (- 1) 0, noteOnEvent (- 2) 1]\<rparr>"

definition negativeSequenceReordered :: MidiSequence where
  "negativeSequenceReordered =
     \<lparr>duration = 2, events = [noteOnEvent (- 2) 0, noteOnEvent (- 1) 1]\<rparr>"

text \<open>A clip in which 60 has three successors, two of them equally often.\<close>

definition rankedSequence :: MidiSequence where
  "rankedSequence =
     \<lparr>duration = 100,
      events = [noteOnEvent 60 0, noteOnEvent 61 10, noteOnEvent 60 20, noteOnEvent 62 30,
                noteOnEvent 60 40, noteOnEvent 62 50, noteOnEvent 60 60, noteOnEvent 64 70,
                noteOnEvent 60 80, noteOnEvent 64 90]\<rparr>"

definition rankedGraph :: RankedSequenceGraph where
  "rankedGraph = addSequences [rankedSequence] (constructor ''ranked'')"

text \<open>A clip with a note number that is written with a dot, \<open>1.5e+21\<close>.\<close>

definition dottedSequence :: MidiSequence where
  "dottedSequence =
     \<lparr>duration = 2,
      events = [noteOnEvent 1500000000000000000000 0, noteOnEvent 60 1]\<rparr>"

definition dottedGraph :: RankedSequenceGraph where
  "dottedGraph = addSequences [dottedSequence] (constructor ''dotted'')"

text \<open>A clip of 8000 note-on events, and a call stack with room for 7500 frames of
  \<open>_addEventIndex\<close> on which the next frame fails to push to the insertion log.\<close>

definition longSequence :: MidiSequence where
  "longSequence = \<lparr>duration = 8000, events = replicate 8000 (noteOnEvent 60 0)\<rparr>"

definition exampleStack :: callStack where
  "exampleStack = \<lparr>room = 7500, overflow = PushInsertSequence\<rparr>"

text \<open>A policy that takes the first outgoing neighbour, the first incoming one when
  nothing goes out, and keeps a log of the parameters it was called with.\<close>

definition loggingNext :: "TraverseNextParam list policy" where
  "loggingNext calls p =
     (case TraverseNextParam.pathsOut p of
        e # _ \<Rightarrow> Some e
      | [] \<Rightarrow> (case TraverseNextParam.pathsIn p of e # _ \<Rightarrow> Some e | [] \<Rightarrow> None),
      calls @ [p])"

section \<open>The two-cycle scenario\<close>

text \<open>
  The notes a node's references lead to, in the order the object holds them, with the keys
  they are stored under; \<open>None\<close> for a note without a node.
\<close>

definition edgesOf ::
  "(Node \<Rightarrow> NodeReferenceMap) \<Rightarrow> RankedSequenceGraph \<Rightarrow> int \<Rightarrow> (int \<times> int) list option" where
  "edgesOf path g n =
     map_option (\<lambda>nd. map (\<lambda>(k, r). (k, node r)) (path nd)) (map_of (nodeMap g) n)"

text \<open>
  A graph that holds the two-cycle between 60 and 62 and nothing else: these two nodes
  only, and 62 the one neighbour of 60, 60 the one neighbour of 62, in both directions.
  The counts are free.
\<close>

definition twoCycle :: "RankedSequenceGraph \<Rightarrow> bool" where
  "twoCycle g \<longleftrightarrow>
     set (map fst (nodeMap g)) = {60, 62}
     \<and> map_option Node.note (map_of (nodeMap g) 60) = Some 60
     \<and> map_option Node.note (map_of (nodeMap g) 62) = Some 62
     \<and> edgesOf Node.pathsOut g 60 = Some [(62, 62)]
     \<and> edgesOf Node.pathsIn g 60 = Some [(62, 62)]
     \<and> edgesOf Node.pathsOut g 62 = Some [(60, 60)]
     \<and> edgesOf Node.pathsIn g 62 = Some [(60, 60)]"

text \<open>
  A policy returns the top-ranked neighbour when, whatever its state, it returns nothing
  for two empty lists and otherwise the head of one of the lists it is offered.
\<close>

definition topChoices :: "TraverseNextParam \<Rightarrow> RankedNoteElement option set" where
  "topChoices p =
     (if TraverseNextParam.pathsIn p = [] \<and> TraverseNextParam.pathsOut p = [] then {None}
      else Some ` set (take 1 (TraverseNextParam.pathsOut p)
                        @ take 1 (TraverseNextParam.pathsIn p)))"

definition topRanked :: "'s policy \<Rightarrow> bool" where
  "topRanked nxt \<longleftrightarrow> (\<forall>s p. fst (nxt s p) \<in> topChoices p)"

definition other :: "int \<Rightarrow> int" where
  "other n = (if n = 60 then 62 else 60)"

section \<open>Facts about the library functions\<close>

lemma indexOf_ge: "- 1 \<le> indexOf xs x"
  by (induction xs) (auto simp: Let_def)

lemma indexOf_less_zero: "indexOf xs x < 0 \<longleftrightarrow> x \<notin> set xs"
proof (induction xs)
  case Nil
  show ?case by simp
next
  case (Cons y ys)
  have "- 1 \<le> indexOf ys x" by (rule indexOf_ge)
  with Cons show ?case by (auto simp: Let_def)
qed

lemma foldl_push_filter:
  "foldl (\<lambda>result r. if P r then result @ [f r] else result) acc xs
     = acc @ map f (filter P xs)"
  by (induction xs arbitrary: acc) auto

lemma mset_ownEntries: "mset (ownEntries obj) = mset obj"
  by (simp add: ownEntries_def)

lemma set_ownValues: "set (ownValues obj) = snd ` set obj"
proof -
  have "set (ownEntries obj) = set obj"
    using mset_ownEntries [of obj] by (metis set_mset_mset)
  then show ?thesis by (simp add: ownValues_def)
qed

lemma sortBy_descending: "sorted_wrt (\<lambda>a b. f b \<le> f a) (sortBy (\<lambda>e. 0 - f e) xs)"
proof -
  have "sorted (map (\<lambda>e. 0 - f e) (sort_key (\<lambda>e. 0 - f e) xs))"
    by (rule sorted_sort_key)
  then show ?thesis
    by (simp add: sortBy_def sorted_map)
qed

section \<open>getNotePaths\<close>

lemma digits_range: "0 \<le> n \<Longrightarrow> d \<in> set (digits n) \<Longrightarrow> 0 \<le> d \<and> d < 10"
proof (induction n rule: digits.induct)
  case (1 n)
  show ?case
  proof (cases "n < 10")
    case True
    then have "digits n = [n]"
      by (subst digits.simps) simp
    with "1.prems" True show ?thesis by simp
  next
    case False
    then have "digits n = digits (n div 10) @ [n mod 10]"
      by (subst digits.simps) simp
    with "1.prems"(2) have "d \<in> set (digits (n div 10)) \<or> d = n mod 10"
      by auto
    then show ?thesis
    proof
      assume "d \<in> set (digits (n div 10))"
      with "1.IH" [OF False] "1.prems"(1) show ?thesis by simp
    next
      assume "d = n mod 10"
      then show ?thesis by simp
    qed
  qed
qed

lemma digitChar_no_dot: "0 \<le> d \<Longrightarrow> d < 10 \<Longrightarrow> digitChar d \<noteq> CHR ''.''"
proof -
  assume "0 \<le> d" "d < 10"
  then have "digitChar d \<in> set ''0123456789''"
    unfolding digitChar_def by (intro nth_mem) simp
  then show ?thesis by auto
qed

lemma decimal_no_dot: "0 \<le> n \<Longrightarrow> CHR ''.'' \<notin> set (decimal n)"
  using digits_range digitChar_no_dot by (fastforce simp: decimal_def)

lemma numberToString_no_dot:
  "\<bar>x\<bar> < 1000000000000000000000 \<Longrightarrow> CHR ''.'' \<notin> set (numberToString x)"
  by (auto simp: numberToString_def Let_def decimal_no_dot)

lemma stringToPath_no_dot: "CHR ''.'' \<notin> set s \<Longrightarrow> stringToPath s = [s]"
  by (induction s) auto

lemma lodashGet_plain:
  "\<bar>n\<bar> < 1000000000000000000000 \<Longrightarrow> lodashGet m n path = map_option path (map_of m n)"
  by (simp add: lodashGet_def stringToPath_no_dot numberToString_no_dot)

lemma lodashGet_unknown: "map_of m n = None \<Longrightarrow> lodashGet m n path = None"
  by (simp add: lodashGet_def split: list.splits)

lemma build_missing: "lodashGet (nodeMap g) n path = None \<Longrightarrow> build g n exclude path = []"
  by (simp add: build_def)

lemma build_found:
  "lodashGet (nodeMap g) n path = Some pathData \<Longrightarrow>
   build g n exclude path =
     sortBy (\<lambda>e. 0 - RankedNoteElement.count e)
       (map (\<lambda>r. \<lparr>RankedNoteElement.count = NodeReference.count r,
                    RankedNoteElement.note = node r\<rparr>)
          (filter (\<lambda>r. node r \<notin> set exclude) (ownValues pathData)))"
  by (simp add: build_def foldl_push_filter indexOf_less_zero)

lemma build_unknown: "map_of (nodeMap g) n = None \<Longrightarrow> build g n exclude path = []"
  by (simp add: build_missing lodashGet_unknown)

lemma build_known:
  "map_of (nodeMap g) n = Some nd \<Longrightarrow> \<bar>n\<bar> < 1000000000000000000000 \<Longrightarrow>
   build g n exclude path =
     sortBy (\<lambda>e. 0 - RankedNoteElement.count e)
       (map (\<lambda>r. \<lparr>RankedNoteElement.count = NodeReference.count r,
                    RankedNoteElement.note = node r\<rparr>)
          (filter (\<lambda>r. node r \<notin> set exclude) (ownValues (path nd))))"
  by (rule build_found) (simp add: lodashGet_plain)

lemma build_descending:
  "sorted_wrt (\<lambda>a b. RankedNoteElement.count b \<le> RankedNoteElement.count a)
     (build g n exclude path)"
proof (cases "lodashGet (nodeMap g) n path")
  case None
  then show ?thesis by (simp add: build_missing)
next
  case (Some pathData)
  show ?thesis unfolding build_found [OF Some] by (rule sortBy_descending)
qed

lemma build_exclude:
  "e \<in> set (build g n exclude path) \<Longrightarrow> RankedNoteElement.note e \<notin> set exclude"
proof (cases "lodashGet (nodeMap g) n path")
  case None
  assume "e \<in> set (build g n exclude path)"
  with None show ?thesis by (simp add: build_missing)
next
  case (Some pathData)
  assume "e \<in> set (build g n exclude path)"
  then show ?thesis
    by (auto simp: build_found [OF Some] sortBy_def)
qed

text \<open>
  Both lists are in descending order of count and hold no excluded note, for every graph,
  note and exclusion list.
\<close>

lemma getNotePaths_sorted_and_filtered:
  "sorted_wrt (\<lambda>a b. RankedNoteElement.count b \<le> RankedNoteElement.count a)
     (NotePaths.pathsIn (getNotePaths g n exclude))
   \<and> sorted_wrt (\<lambda>a b. RankedNoteElement.count b \<le> RankedNoteElement.count a)
     (NotePaths.pathsOut (getNotePaths g n exclude))
   \<and> RankedNoteElement.note `
         (set (NotePaths.pathsIn (getNotePaths g n exclude))
            \<union> set (NotePaths.pathsOut (getNotePaths g n exclude)))
       \<inter> set exclude = {}"
proof -
  have "RankedNoteElement.note `
          (set (build g n exclude Node.pathsIn) \<union> set (build g n exclude Node.pathsOut))
        \<inter> set exclude = {}"
    using build_exclude by blast
  then show ?thesis
    by (simp add: getNotePaths_def build_descending)
qed

text \<open>
  For a note that has a node and whose string has no dot, the two lists are the node's
  references in the order the object lists them, without those to an excluded note, each
  with its count, sorted by the stable sort.
\<close>

lemma getNotePaths_lists:
  assumes "map_of (nodeMap g) n = Some nd" and "\<bar>n\<bar> < 1000000000000000000000"
  shows "NotePaths.pathsIn (getNotePaths g n exclude) =
           sortBy (\<lambda>e. 0 - RankedNoteElement.count e)
             (map (\<lambda>r. \<lparr>RankedNoteElement.count = NodeReference.count r,
                          RankedNoteElement.note = node r\<rparr>)
                (filter (\<lambda>r. node r \<notin> set exclude) (ownValues (Node.pathsIn nd))))
       \<and> NotePaths.pathsOut (getNotePaths g n exclude) =
           sortBy (\<lambda>e. 0 - RankedNoteElement.count e)
             (map (\<lambda>r. \<lparr>RankedNoteElement.count = NodeReference.count r,
                          RankedNoteElement.note = node r\<rparr>)
                (filter (\<lambda>r. node r \<notin> set exclude) (ownValues (Node.pathsOut nd))))"
  by (simp add: getNotePaths_def build_known [OF assms])

text \<open>
  In the graph of the clip 60, 61, 60, 62, 60, 62, 60, 64, 60, 64 the note 60 is followed
  once by 61 and twice by 62 and by 64: the sort moves 61 behind the two others and keeps
  62 before 64, and excluding 64 removes it from both lists.
\<close>

lemma getNotePaths_lists_example:
  "map_of (nodeMap rankedGraph) 60 = Some (the (map_of (nodeMap rankedGraph) 60))
   \<and> map (\<lambda>r. (node r, NodeReference.count r))
         (ownValues (Node.pathsOut (the (map_of (nodeMap rankedGraph) 60))))
       = [(61, 1), (62, 2), (64, 2)]
   \<and> getNotePaths rankedGraph 60 [] =
       \<lparr>NotePaths.pathsIn =
          [\<lparr>RankedNoteElement.count = 2, RankedNoteElement.note = 62\<rparr>,
           \<lparr>RankedNoteElement.count = 1, RankedNoteElement.note = 61\<rparr>,
           \<lparr>RankedNoteElement.count = 1, RankedNoteElement.note = 64\<rparr>],
        NotePaths.pathsOut =
          [\<lparr>RankedNoteElement.count = 2, RankedNoteElement.note = 62\<rparr>,
           \<lparr>RankedNoteElement.count = 2, RankedNoteElement.note = 64\<rparr>,
           \<lparr>RankedNoteElement.count = 1, RankedNoteElement.note = 61\<rparr>]\<rparr>
   \<and> getNotePaths rankedGraph 60 [64] =
       \<lparr>NotePaths.pathsIn =
          [\<lparr>RankedNoteElement.count = 2, RankedNoteElement.note = 62\<rparr>,
           \<lparr>RankedNoteElement.count = 1, RankedNoteElement.note = 61\<rparr>],
        NotePaths.pathsOut =
          [\<lparr>RankedNoteElement.count = 2, RankedNoteElement.note = 62\<rparr>,
           \<lparr>RankedNoteElement.count = 1, RankedNoteElement.note = 61\<rparr>]\<rparr>
   \<and> NotePaths.pathsOut (getNotePaths rankedGraph 60 [64]) =
       sortBy (\<lambda>e. 0 - RankedNoteElement.count e)
         (map (\<lambda>r. \<lparr>RankedNoteElement.count = NodeReference.count r,
                      RankedNoteElement.note = node r\<rparr>)
            (filter (\<lambda>r. node r \<notin> set [64])
               (ownValues (Node.pathsOut (the (map_of (nodeMap rankedGraph) 60))))))"
proof -
  have "map_of (nodeMap rankedGraph) 60 \<noteq> None"
    by code_simp
  then have a: "map_of (nodeMap rankedGraph) 60 = Some (the (map_of (nodeMap rankedGraph) 60))"
    by simp
  have b: "\<bar>60 :: int\<bar> < 1000000000000000000000"
    by simp
  have c: "map (\<lambda>r. (node r, NodeReference.count r))
         (ownValues (Node.pathsOut (the (map_of (nodeMap rankedGraph) 60))))
       = [(61, 1), (62, 2), (64, 2)]"
    by code_simp
  have d: "getNotePaths rankedGraph 60 [] =
       \<lparr>NotePaths.pathsIn =
          [\<lparr>RankedNoteElement.count = 2, RankedNoteElement.note = 62\<rparr>,
           \<lparr>RankedNoteElement.count = 1, RankedNoteElement.note = 61\<rparr>,
           \<lparr>RankedNoteElement.count = 1, RankedNoteElement.note = 64\<rparr>],
        NotePaths.pathsOut =
          [\<lparr>RankedNoteElement.count = 2, RankedNoteElement.note = 62\<rparr>,
           \<lparr>RankedNoteElement.count = 2, RankedNoteElement.note = 64\<rparr>,
           \<lparr>RankedNoteElement.count = 1, RankedNoteElement.note = 61\<rparr>]\<rparr>"
    by code_simp
  have e: "getNotePaths rankedGraph 60 [64] =
       \<lparr>NotePaths.pathsIn =
          [\<lparr>RankedNoteElement.count = 2, RankedNoteElement.note = 62\<rparr>,
           \<lparr>RankedNoteElement.count = 1, RankedNoteElement.note = 61\<rparr>],
        NotePaths.pathsOut =
          [\<lparr>RankedNoteElement.count = 2, RankedNoteElement.note = 62\<rparr>,
           \<lparr>RankedNoteElement.count = 1, RankedNoteElement.note = 61\<rparr>]\<rparr>"
    by code_simp
  from getNotePaths_lists [OF a b, of "[64]"] a c d e show ?thesis
    by blast
qed

text \<open>
  Claim C5.  For a note known to the graph, \<open>getNotePaths\<close> is to return the note's
  incoming and outgoing neighbours with their counts, in descending order of count and
  without the excluded notes.  The code does not for a note whose string has a dot: the
  note \<open>1.5e+21\<close> has a node with a reference to its successor 60, and
  \<open>getSequencesForNote\<close>, which reads \<open>this._map[note]\<close>, finds that node, but the path
  string of \<open>getNotePaths\<close> is cut inside the number and both lists come back empty.
\<close>

theorem getNotePaths_misses_dotted_note:
  "numberToString 1500000000000000000000 = ''1.5e+21''
   \<and> map_option (\<lambda>nd. map (\<lambda>r. (node r, NodeReference.count r)) (ownValues (Node.pathsOut nd)))
         (map_of (nodeMap dottedGraph) 1500000000000000000000) = Some [(60, 1)]
   \<and> getNotePaths dottedGraph 1500000000000000000000 [] =
         \<lparr>NotePaths.pathsIn = [], NotePaths.pathsOut = []\<rparr>
   \<and> getSequencesForNote dottedGraph 1500000000000000000000 False = Inr [dottedSequence]"
  by code_simp

text \<open>
  Claim C6.  For a note without a node, whatever the exclusion list, \<open>getNotePaths\<close>
  returns two empty lists; the model of \<open>getNotePaths\<close> has no error value, as the
  code has no statement that raises.
\<close>

theorem getNotePaths_unknown_note:
  "map_of (nodeMap g) n = None \<Longrightarrow>
   getNotePaths g n exclude = \<lparr>NotePaths.pathsIn = [], NotePaths.pathsOut = []\<rparr>"
  by (simp add: getNotePaths_def build_unknown)

theorem getNotePaths_unknown_note_witness:
  "map_of (nodeMap exampleGraph) 61 = None
   \<and> getNotePaths exampleGraph 61 [60] = \<lparr>NotePaths.pathsIn = [], NotePaths.pathsOut = []\<rparr>"
proof -
  have h: "map_of (nodeMap exampleGraph) 61 = None"
    by code_simp
  show ?thesis
    by (rule conjI [OF h getNotePaths_unknown_note [OF h]])
qed

section \<open>traverse\<close>

lemma push_step:
  assumes "index \<noteq> maxCount"
    and "visit g at nxt (RankedNoteElement.note e) ex s = (ne, ex', s')"
    and "push g at maxCount nxt ne (index + 1) ex' s' = Some (ns, s'')"
  shows "push g at maxCount nxt (Some e) index ex s = Some (RankedNoteElement.note e # ns, s'')"
  using assms by (subst push.simps) simp

lemma push_stop: "push g at maxCount nxt None index ex s = Some ([], s)"
  "push g at maxCount nxt ne maxCount ex s = Some ([], s)"
  by (simp_all add: push.simps)

lemma traverse_known:
  "map_of (nodeMap g) n = Some nd \<Longrightarrow>
   traverse g at maxCount nxt n s =
     push g at maxCount nxt (Some \<lparr>RankedNoteElement.count = Node.count nd,
        RankedNoteElement.note = Node.note nd\<rparr>) 0 [] s"
  by (simp add: traverse_def)

text \<open>For a \<open>maxCount\<close> that is not negative \<open>traverse\<close> returns, with at most
  \<open>maxCount\<close> notes.\<close>

lemma push_returns:
  "index \<le> maxCount \<Longrightarrow>
   \<exists>ns s'. push g attributes maxCount nxt noteElement index exclude s = Some (ns, s')
           \<and> int (length ns) \<le> maxCount - index"
proof (induction "nat (maxCount - index)" arbitrary: index noteElement exclude s)
  case 0
  then have "index = maxCount" by simp
  then show ?case by (simp add: push_stop)
next
  case (Suc k)
  then have less: "index \<noteq> maxCount" and k: "k = nat (maxCount - (index + 1))"
    and le: "index + 1 \<le> maxCount"
    by simp_all
  show ?case
  proof (cases noteElement)
    case None
    with Suc.prems show ?thesis by (simp add: push_stop)
  next
    case (Some e)
    obtain ne ex' s' where v:
      "visit g attributes nxt (RankedNoteElement.note e) exclude s = (ne, ex', s')"
      by (cases "visit g attributes nxt (RankedNoteElement.note e) exclude s") auto
    from Suc.hyps(1) [OF k le, of ne ex' s'] obtain ns s'' where
      p: "push g attributes maxCount nxt ne (index + 1) ex' s' = Some (ns, s'')"
      and len: "int (length ns) \<le> maxCount - (index + 1)"
      by blast
    from push_step [OF less v p] len Some show ?thesis by simp
  qed
qed

lemma traverse_returns:
  "0 \<le> maxCount \<Longrightarrow>
   \<exists>ns s'. traverse g attributes maxCount nxt startNote s = Some (ns, s')
           \<and> int (length ns) \<le> maxCount"
  using push_returns [of 0 maxCount g attributes nxt _ "[]" s]
  by (simp add: traverse_def)

text \<open>
  Claim C7.  When \<open>startNote\<close> has no node, \<open>traverse\<close> returns the empty list, for
  every graph, attribute set, \<open>maxCount\<close> and policy.  The policy's state comes back as
  it went in, for a policy that logs its calls too: \<open>next\<close> was not called.
\<close>

theorem traverse_unknown_startNote:
  "map_of (nodeMap g) startNote = None \<Longrightarrow>
   traverse g attributes maxCount nxt startNote s = Some ([], s)"
  by (simp add: traverse_def push.simps)

theorem traverse_unknown_startNote_witness:
  "map_of (nodeMap exampleGraph) 61 = None
   \<and> traverse exampleGraph DisallowReuse 5 loggingNext 61 [] = Some ([], [])"
proof -
  have h: "map_of (nodeMap exampleGraph) 61 = None"
    by code_simp
  show ?thesis
    by (rule conjI [OF h traverse_unknown_startNote [OF h]])
qed

text \<open>
  Claim C10.  With \<open>maxCount = 0\<close> the result of \<open>traverse\<close> is the empty list, also
  when \<open>startNote\<close> has a node, and the policy's state is untouched: \<open>next\<close> was not
  called.
\<close>

theorem traverse_maxCount_zero:
  "traverse g attributes 0 nxt startNote s = Some ([], s)"
  by (simp add: traverse_def push.simps)

theorem traverse_maxCount_zero_witness:
  "map_of (nodeMap exampleGraph) 60 \<noteq> None
   \<and> traverse exampleGraph DisallowReuse 0 loggingNext 60 [] = Some ([], [])"
proof -
  have h: "map_of (nodeMap exampleGraph) 60 \<noteq> None"
    by code_simp
  show ?thesis
    by (rule conjI [OF h traverse_maxCount_zero])
qed

subsection \<open>The two-cycle between 60 and 62\<close>

lemma ownValues_single: "ownValues [(k, r)] = [r]"
  by (simp add: ownValues_def ownEntries_def)


lemma build_twoCycle:
  assumes "twoCycle g" "n = 60 \<or> n = 62" "path = Node.pathsIn \<or> path = Node.pathsOut"
  shows "\<exists>c. build g n ex path =
           (if other n \<in> set ex then []
            else [\<lparr>RankedNoteElement.count = c, RankedNoteElement.note = other n\<rparr>])"
proof -
  from assms obtain nd where nd: "map_of (nodeMap g) n = Some nd"
    and e: "map (\<lambda>(k, r). (k, node r)) (path nd) = [(other n, other n)]"
    by (auto simp: twoCycle_def edgesOf_def other_def)
  from e obtain r where r: "path nd = [(other n, r)]" "node r = other n"
    by (cases "path nd") auto
  from assms(2) have "\<bar>n\<bar> < 1000000000000000000000"
    by auto
  from build_known [OF nd this] show ?thesis
    by (simp add: r ownValues_single sortBy_def)
qed

lemma getNotePaths_twoCycle:
  assumes "twoCycle g" "n = 60 \<or> n = 62"
  shows "\<exists>a b. getNotePaths g n ex =
           (if other n \<in> set ex then \<lparr>NotePaths.pathsIn = [], NotePaths.pathsOut = []\<rparr>
            else \<lparr>NotePaths.pathsIn = [\<lparr>RankedNoteElement.count = a, RankedNoteElement.note = other n\<rparr>],
                  NotePaths.pathsOut = [\<lparr>RankedNoteElement.count = b, RankedNoteElement.note = other n\<rparr>]\<rparr>)"
proof -
  obtain a where a: "build g n ex Node.pathsIn =
           (if other n \<in> set ex then []
            else [\<lparr>RankedNoteElement.count = a, RankedNoteElement.note = other n\<rparr>])"
    using build_twoCycle [OF assms, of Node.pathsIn ex] by auto
  obtain b where b: "build g n ex Node.pathsOut =
           (if other n \<in> set ex then []
            else [\<lparr>RankedNoteElement.count = b, RankedNoteElement.note = other n\<rparr>])"
    using build_twoCycle [OF assms, of Node.pathsOut ex] by auto
  show ?thesis
    by (rule exI [of _ a], rule exI [of _ b]) (simp add: getNotePaths_def a b)
qed

lemma choice_blocked:
  assumes "twoCycle g" "topRanked nxt" "n = 60 \<or> n = 62" "other n \<in> set ex"
  shows "fst (nxt s (nextParam n (getNotePaths g n ex))) = None"
proof -
  from getNotePaths_twoCycle [OF assms(1,3), of ex] assms(4)
  have "getNotePaths g n ex = \<lparr>NotePaths.pathsIn = [], NotePaths.pathsOut = []\<rparr>"
    by auto
  then have "topChoices (nextParam n (getNotePaths g n ex)) = {None}"
    by (simp add: topChoices_def nextParam_def)
  with assms(2) show ?thesis
    unfolding topRanked_def by blast
qed

lemma choice_free:
  assumes "twoCycle g" "topRanked nxt" "n = 60 \<or> n = 62" "other n \<notin> set ex"
  shows "\<exists>e. fst (nxt s (nextParam n (getNotePaths g n ex))) = Some e
              \<and> RankedNoteElement.note e = other n"
proof -
  from getNotePaths_twoCycle [OF assms(1,3), of ex] assms(4)
  obtain a b where "getNotePaths g n ex =
     \<lparr>NotePaths.pathsIn = [\<lparr>RankedNoteElement.count = a, RankedNoteElement.note = other n\<rparr>],
      NotePaths.pathsOut = [\<lparr>RankedNoteElement.count = b, RankedNoteElement.note = other n\<rparr>]\<rparr>"
    by auto
  then have "topChoices (nextParam n (getNotePaths g n ex)) =
      {Some \<lparr>RankedNoteElement.count = b, RankedNoteElement.note = other n\<rparr>,
       Some \<lparr>RankedNoteElement.count = a, RankedNoteElement.note = other n\<rparr>}"
    by (simp add: topChoices_def nextParam_def)
  moreover from assms(2)
  have "fst (nxt s (nextParam n (getNotePaths g n ex)))
          \<in> topChoices (nextParam n (getNotePaths g n ex))"
    unfolding topRanked_def by blast
  ultimately show ?thesis by auto
qed

lemma other_neq: "other n \<noteq> n"  "n = 60 \<or> n = 62 \<Longrightarrow> other (other n) = n"
  by (auto simp: other_def)

lemma visit_free:
  assumes "twoCycle g" "topRanked nxt" "n = 60 \<or> n = 62" "other n \<notin> set ex"
    and "at = DisallowReuse \<or> at = DisallowReuse OR ResetAfterExhaust"
  shows "\<exists>e s'. visit g at nxt n ex s = (Some e, ex @ [n], s')
                 \<and> RankedNoteElement.note e = other n"
proof -
  from assms(4) have "other n \<notin> set (ex @ [n])"
    using other_neq(1) [of n] by auto
  from choice_free [OF assms(1-3) this, of s]
  obtain e where "fst (nxt s (nextParam n (getNotePaths g n (ex @ [n])))) = Some e"
    "RankedNoteElement.note e = other n" by blast
  with assms(5) show ?thesis
    by (auto simp: visit_def Let_def DisallowReuse_def ResetAfterExhaust_def split: prod.splits)
qed

lemma visit_blocked:
  assumes "twoCycle g" "topRanked nxt" "n = 60 \<or> n = 62" "other n \<in> set ex"
  shows "\<exists>s'. visit g DisallowReuse nxt n ex s = (None, ex @ [n], s')"
proof -
  from assms(4) have "other n \<in> set (ex @ [n])" by simp
  from choice_blocked [OF assms(1-3) this, of s]
  show ?thesis
    by (auto simp: visit_def Let_def DisallowReuse_def ResetAfterExhaust_def split: prod.splits)
qed

lemma visit_reset:
  assumes "twoCycle g" "topRanked nxt" "n = 60 \<or> n = 62" "other n \<in> set ex"
  shows "\<exists>e s'. visit g (DisallowReuse OR ResetAfterExhaust) nxt n ex s = (Some e, [], s')
                 \<and> RankedNoteElement.note e = other n"
proof -
  from assms(4) have "other n \<in> set (ex @ [n])" by simp
  note blocked = choice_blocked [OF assms(1-3) this, of s]
  obtain s1 where s1: "s1 = snd (nxt s (nextParam n (getNotePaths g n (ex @ [n]))))" by simp
  have "other n \<notin> set []" by simp
  from choice_free [OF assms(1-3) this, of s1]
  obtain e where "fst (nxt s1 (nextParam n (getNotePaths g n []))) = Some e"
    "RankedNoteElement.note e = other n" by blast
  with blocked s1 show ?thesis
    by (auto simp: visit_def Let_def DisallowReuse_def ResetAfterExhaust_def split: prod.splits)
qed

lemma push_DisallowReuse:
  assumes g: "twoCycle g" and nxt: "topRanked nxt" and n: "n = 60 \<or> n = 62"
    and e: "RankedNoteElement.note e = n"
  shows "\<exists>s'. push g DisallowReuse 5 nxt (Some e) 0 [] s = Some ([n, other n], s')"
proof -
  have on: "other n = 60 \<or> other n = 62" by (simp add: other_def)
  have "other n \<notin> set []" by simp
  from visit_free [OF g nxt n this, of DisallowReuse s]
  obtain e1 s1 where v0: "visit g DisallowReuse nxt n [] s = (Some e1, [] @ [n], s1)"
    and e1: "RankedNoteElement.note e1 = other n" by blast
  have "other (other n) \<in> set ([] @ [n])" using other_neq(2) [OF n] by simp
  from visit_blocked [OF g nxt on this, of s1]
  obtain s2 where v1: "visit g DisallowReuse nxt (other n) ([] @ [n]) s1 = (None, ([] @ [n]) @ [other n], s2)"
    by blast
  have p1: "push g DisallowReuse 5 nxt (Some e1) (0 + 1) ([] @ [n]) s1 = Some ([other n], s2)"
    using push_step [of "0 + 1" 5 g DisallowReuse nxt e1 "[] @ [n]" s1 None _ s2 "[]" s2]
      v1 e1 by (simp add: push_stop)
  have "push g DisallowReuse 5 nxt (Some e) 0 [] s = Some ([n, other n], s2)"
    using push_step [of 0 5 g DisallowReuse nxt e "[]" s "Some e1" "[] @ [n]" s1 "[other n]" s2]
      v0 e p1 by simp
  then show ?thesis by blast
qed


lemma push_reset_last:
  assumes g: "twoCycle g" and nxt: "topRanked nxt" and n: "n = 60 \<or> n = 62"
    and e: "RankedNoteElement.note e = n"
  shows "\<exists>s'. push g (DisallowReuse OR ResetAfterExhaust) 5 nxt (Some e) 4 [] s = Some ([n], s')"
proof -
  have "other n \<notin> set []" by simp
  from visit_free [OF g nxt n this, of "DisallowReuse OR ResetAfterExhaust" s]
  obtain e1 s1 where
    v0: "visit g (DisallowReuse OR ResetAfterExhaust) nxt n [] s = (Some e1, [] @ [n], s1)"
    by blast
  have "push g (DisallowReuse OR ResetAfterExhaust) 5 nxt (Some e) 4 [] s = Some ([n], s1)"
    using push_step [of 4 5 g "DisallowReuse OR ResetAfterExhaust" nxt e "[]" s "Some e1"
        "[] @ [n]" s1 "[]" s1] v0 e
    by (simp add: push_stop)
  then show ?thesis by blast
qed

lemma push_reset_round:
  assumes g: "twoCycle g" and nxt: "topRanked nxt" and n: "n = 60 \<or> n = 62"
    and i: "i \<noteq> 5" "i + 1 \<noteq> 5"
    and rest: "\<And>e s. RankedNoteElement.note e = n \<Longrightarrow>
       \<exists>s'. push g (DisallowReuse OR ResetAfterExhaust) 5 nxt (Some e) (i + 2) [] s = Some (ns, s')"
    and e: "RankedNoteElement.note e = n"
  shows "\<exists>s'. push g (DisallowReuse OR ResetAfterExhaust) 5 nxt (Some e) i [] s
           = Some (n # other n # ns, s')"
proof -
  have on: "other n = 60 \<or> other n = 62" by (simp add: other_def)
  have "other n \<notin> set []" by simp
  from visit_free [OF g nxt n this, of "DisallowReuse OR ResetAfterExhaust" s]
  obtain e1 s1 where
    v0: "visit g (DisallowReuse OR ResetAfterExhaust) nxt n [] s = (Some e1, [] @ [n], s1)"
    and e1: "RankedNoteElement.note e1 = other n" by blast
  have "other (other n) \<in> set ([] @ [n])" using other_neq(2) [OF n] by simp
  from visit_reset [OF g nxt on this, of s1]
  obtain e2 s2 where
    v1: "visit g (DisallowReuse OR ResetAfterExhaust) nxt (other n) ([] @ [n]) s1 = (Some e2, [], s2)"
    and e2: "RankedNoteElement.note e2 = other (other n)" by blast
  from e2 have "RankedNoteElement.note e2 = n" using other_neq(2) [OF n] by simp
  from rest [OF this, of s2] obtain s3 where
    p2: "push g (DisallowReuse OR ResetAfterExhaust) 5 nxt (Some e2) (i + 2) [] s2 = Some (ns, s3)"
    by blast
  have p1: "push g (DisallowReuse OR ResetAfterExhaust) 5 nxt (Some e1) (i + 1) ([] @ [n]) s1
              = Some (other n # ns, s3)"
    using push_step [of "i + 1" 5 g "DisallowReuse OR ResetAfterExhaust" nxt e1 "[] @ [n]" s1
        "Some e2" "[]" s2 ns s3] v1 e1 p2 i
    by (simp add: add.assoc)
  have "push g (DisallowReuse OR ResetAfterExhaust) 5 nxt (Some e) i [] s
          = Some (n # other n # ns, s3)"
    using push_step [of i 5 g "DisallowReuse OR ResetAfterExhaust" nxt e "[]" s "Some e1"
        "[] @ [n]" s1 "other n # ns" s3] v0 e p1 i
    by simp
  then show ?thesis by blast
qed

lemma push_ResetAfterExhaust:
  assumes g: "twoCycle g" and nxt: "topRanked nxt" and n: "n = 60 \<or> n = 62"
    and e: "RankedNoteElement.note e = n"
  shows "\<exists>s'. push g (DisallowReuse OR ResetAfterExhaust) 5 nxt (Some e) 0 [] s
           = Some ([n, other n, n, other n, n], s')"
proof -
  have r4: "\<exists>s'. push g (DisallowReuse OR ResetAfterExhaust) 5 nxt (Some e) (2 + 2) [] s
                  = Some ([n], s')"
    if "RankedNoteElement.note e = n" for e s
    using push_reset_last [OF g nxt n that, of s] by simp
  have r2: "\<exists>s'. push g (DisallowReuse OR ResetAfterExhaust) 5 nxt (Some e) (0 + 2) [] s
                  = Some ([n, other n, n], s')"
    if "RankedNoteElement.note e = n" for e s
    using push_reset_round [OF g nxt n _ _ r4 that, of s] by simp
  show ?thesis
    using push_reset_round [OF g nxt n _ _ r2 e, of s] by simp
qed

text \<open>
  Claim C4.  On a graph that holds just the two-cycle between 60 and 62, started at either
  note with \<open>maxCount = 5\<close> and a policy that returns the top-ranked neighbour (nothing
  when both lists are empty): with \<open>DisallowReuse\<close> alone \<open>traverse\<close> returns the start
  note and the other note, each once, and stops there; with \<open>ResetAfterExhaust\<close> added
  it returns five notes that alternate between the two.
\<close>

theorem traverse_two_cycle:
  assumes "twoCycle g" "topRanked nxt" "startNote = 60 \<or> startNote = 62"
  shows "(\<exists>s'. traverse g DisallowReuse 5 nxt startNote s
                 = Some ([startNote, other startNote], s'))
       \<and> (\<exists>s'. traverse g (DisallowReuse OR ResetAfterExhaust) 5 nxt startNote s
                 = Some ([startNote, other startNote, startNote, other startNote, startNote], s'))"
proof -
  from assms(1,3) obtain nd where nd: "map_of (nodeMap g) startNote = Some nd"
    and "Node.note nd = startNote"
    by (auto simp: twoCycle_def)
  then have e: "RankedNoteElement.note \<lparr>RankedNoteElement.count = Node.count nd,
        RankedNoteElement.note = Node.note nd\<rparr> = startNote"
    by simp
  show ?thesis
    unfolding traverse_known [OF nd]
    using push_DisallowReuse [OF assms e, of s] push_ResetAfterExhaust [OF assms e, of s]
    by blast
qed

theorem traverse_two_cycle_witness:
  "twoCycle exampleGraph \<and> topRanked loggingNext \<and> ((60::int) = 60 \<or> (60::int) = 62)
   \<and> (\<exists>s'. traverse exampleGraph DisallowReuse 5 loggingNext 60 [] = Some ([60, 62], s'))
   \<and> (\<exists>s'. traverse exampleGraph (DisallowReuse OR ResetAfterExhaust) 5 loggingNext 60 []
              = Some ([60, 62, 60, 62, 60], s'))"
proof -
  have a: "twoCycle exampleGraph"
    by code_simp
  have b: "topRanked loggingNext"
    by (simp add: topRanked_def loggingNext_def topChoices_def split: list.splits)
  have c: "(60::int) = 60 \<or> (60::int) = 62"
    by simp
  from traverse_two_cycle [OF a b c, of "[]"] a b c show ?thesis
    by (simp add: other_def)
qed

section \<open>addSequence: the steps of the recursion\<close>

lemma addEventIndex_step:
  "addEventIndex sq index prev g =
     (if index < length (events sq)
      then addEventIndex sq (index + 1) (Some (noteNumber (events sq ! index)))
             (addEvent sq index prev g)
      else g)"
  by (subst addEventIndex.simps) (simp add: addEvent_def Let_def split: option.splits)

lemma addSequence_noteOnSequence:
  "addSequence sq g = addEventIndex (noteOnSequence sq) 0 None g"
  by (simp add: addSequence_def noteOnSequence_def)

lemma addSequences_Nil: "addSequences [] g = g"
  by (simp add: addSequences_def)

lemma addSequences_Cons: "addSequences (sq # ss) g = addSequences ss (addSequence sq g)"
  by (simp add: addSequences_def)

lemma map_of_ensureMappedValue:
  "map_of (ensureMappedValue m k v) =
     (case map_of m k of None \<Rightarrow> (map_of m)(k \<mapsto> v) | Some _ \<Rightarrow> map_of m)"
  by (auto simp: ensureMappedValue_def hasOwnProperty_def update_conv')







subsection \<open>Symmetry of the edge counts\<close>







subsection \<open>Conservation of the counts\<close>

lemma update_fresh: "k \<notin> fst ` set m \<Longrightarrow> AList.update k v m = m @ [(k, v)]"
  by (induction m) auto

lemma ensureMappedValue_cases:
  "ensureMappedValue m k v = (if k \<in> fst ` set m then m else m @ [(k, v)])"
  by (auto simp: ensureMappedValue_def hasOwnProperty_def update_fresh map_of_eq_None_iff)

lemma sum_list_map_entry:
  fixes h :: "'v \<Rightarrow> int"
  shows "sum_list (map (\<lambda>p. h (snd p)) (AList.map_entry k f m)) =
     sum_list (map (\<lambda>p. h (snd p)) m)
       + (case map_of m k of None \<Rightarrow> 0 | Some v \<Rightarrow> h (f v) - h v)"
  by (induction m) auto

lemma countSum_addEvent: "countSum (addEvent sq i prev g) = countSum g + 1"
  by (cases prev)
    (auto simp: countSum_def addEvent_def Let_def sum_list_map_entry map_of_map_entry
      map_of_ensureMappedValue ensureMappedValue_cases map_of_eq_None_iff
      split: option.splits)

lemma insertSequence_addEvent:
  "insertSequence (addEvent sq i prev g) = insertSequence g @ [noteNumber (events sq ! i)]"
  by (simp add: addEvent_def Let_def)

lemma totals_addEventIndex:
  "countSum (addEventIndex sq i prev g) = countSum g + int (length (events sq) - i)
   \<and> insertSequence (addEventIndex sq i prev g)
       = insertSequence g @ map noteNumber (drop i (events sq))"
proof (induction "length (events sq) - i" arbitrary: i prev g)
  case 0
  then show ?case by (subst (1 2) addEventIndex_step) simp
next
  case (Suc k)
  from Suc.hyps(2) have i: "i < length (events sq)" and k: "k = length (events sq) - (i + 1)"
    by simp_all
  have d: "drop i (events sq) = events sq ! i # drop (i + 1) (events sq)"
    using i by (simp add: Cons_nth_drop_Suc)
  have len: "int (length (events sq) - i) = 1 + int (length (events sq) - (i + 1))"
    using i by simp
  from Suc.hyps(1) [OF k, of "Some (noteNumber (events sq ! i))" "addEvent sq i prev g"] i
  show ?case
    by (subst (1 2) addEventIndex_step)
      (simp add: countSum_addEvent insertSequence_addEvent d len del: of_nat_diff)
qed

lemma totals_addSequences:
  "countSum (addSequences ss g) = countSum g + int (noteOnCount ss)
   \<and> length (insertSequence (addSequences ss g)) = length (insertSequence g) + noteOnCount ss"
proof (induction ss arbitrary: g)
  case Nil
  show ?case by (simp add: addSequences_Nil noteOnCount_def)
next
  case (Cons sq ss)
  have "countSum (addSequence sq g)
          = countSum g + int (length (filter (\<lambda>ev. subtype ev = noteOn) (events sq)))"
    and "length (insertSequence (addSequence sq g))
          = length (insertSequence g) + length (filter (\<lambda>ev. subtype ev = noteOn) (events sq))"
    by (simp_all add: addSequence_noteOnSequence totals_addEventIndex noteOnSequence_def)
  with Cons.IH [of "addSequence sq g"] show ?case
    by (simp add: addSequences_Cons noteOnCount_def)
qed

lemma sum_getAllNotes: "sum_list (map RankedNoteElement.count (getAllNotes g)) = countSum g"
proof -
  have "mset (map RankedNoteElement.count (getAllNotes g))
          = image_mset (\<lambda>p. Node.count (snd p)) (mset (ownEntries (nodeMap g)))"
    by (simp add: getAllNotes_def sortBy_def ownValues_def multiset.map_comp comp_def)
  then have "sum_mset (mset (map RankedNoteElement.count (getAllNotes g)))
          = sum_mset (mset (map (\<lambda>p. Node.count (snd p)) (nodeMap g)))"
    by (simp add: mset_ownEntries)
  then show ?thesis
    by (simp only: sum_mset_sum_list countSum_def)
qed

subsection \<open>Conservation on a call stack\<close>

lemma addEventIndexOn_returns:
  "length (events sq) < room stack \<Longrightarrow> i \<le> length (events sq) \<Longrightarrow>
   addEventIndexOn stack sq i prev g = (None, addEventIndex sq i prev g)"
proof (induction "length (events sq) - i" arbitrary: i prev g)
  case 0
  then show ?case
    by (subst addEventIndexOn.simps, subst addEventIndex_step) simp
next
  case (Suc k)
  from Suc.hyps(2) have i: "i < length (events sq)" and k: "k = length (events sq) - (i + 1)"
    by simp_all
  from i Suc.prems have r: "i < room stack" and le: "i + 1 \<le> length (events sq)"
    by simp_all
  from Suc.hyps(1) [OF k Suc.prems(1) le] i r show ?case
    by (subst addEventIndexOn.simps, subst addEventIndex_step) simp
qed

lemma addSequenceOn_returns:
  "fits (stack, sq) \<Longrightarrow> addSequenceOn stack sq g = (None, addSequence sq g)"
  by (simp add: fits_def addSequenceOn_def addSequence_def addEventIndexOn_returns)

lemma addSequencesOn_returns:
  "list_all fits calls \<Longrightarrow>
   addSequencesOn calls g = (None, addSequences (map snd calls) g)"
proof (induction calls arbitrary: g)
  case Nil
  show ?case by (simp add: addSequences_Nil)
next
  case (Cons call calls)
  obtain stack sq where call: "call = (stack, sq)" by (cases call)
  with Cons show ?case
    by (simp add: addSequenceOn_returns addSequences_Cons)
qed

lemma countSum_addEventBefore:
  "site \<noteq> AddEventIndex \<Longrightarrow>
   countSum (addEventBefore site sq i prev g)
     = countSum g + (if site = EnsureNode then 0 else 1)"
  by (cases site; cases prev)
    (auto simp: countSum_def addEventBefore_def addEvent_def Let_def sum_list_map_entry
      map_of_map_entry map_of_ensureMappedValue ensureMappedValue_cases map_of_eq_None_iff
      split: option.splits)

lemma insertSequence_addEventBefore:
  "site \<noteq> AddEventIndex \<Longrightarrow>
   length (insertSequence (addEventBefore site sq i prev g))
     = length (insertSequence g)
       + (if site \<in> {EnsureNode, PushSequences, PushInsertSequence} then 0 else 1)"
  by (cases site; cases prev) (simp_all add: addEventBefore_def addEvent_def Let_def)

lemma totals_overflow:
  assumes "room stack < length (events sq)"
  shows "i \<le> room stack \<Longrightarrow>
   fst (addEventIndexOn stack sq i prev g) = Some RangeError
   \<and> countSum (snd (addEventIndexOn stack sq i prev g))
       = countSum g + int (room stack - i)
         + (if overflow stack \<in> {EnsureNode, AddEventIndex} then 0 else 1)
   \<and> length (insertSequence (snd (addEventIndexOn stack sq i prev g)))
       = length (insertSequence g) + (room stack - i)
         + (if overflow stack
               \<in> {EnsureNode, PushSequences, PushInsertSequence, AddEventIndex}
            then 0 else 1)"
proof (induction "room stack - i" arbitrary: i prev g)
  case 0
  then have i: "i = room stack" by simp
  with assms show ?case
    by (subst (1 2 3) addEventIndexOn.simps)
      (simp add: countSum_addEventBefore insertSequence_addEventBefore)
next
  case (Suc k)
  from Suc.hyps(2) have r: "i < room stack" and k: "k = room stack - (i + 1)"
    and le: "i + 1 \<le> room stack"
    by simp_all
  from r assms have i: "i < length (events sq)" by simp
  have len: "int (room stack - i) = 1 + int (room stack - (i + 1))"
    "room stack - i = 1 + (room stack - (i + 1))"
    using r by simp_all
  from Suc.hyps(1) [OF k le, of "Some (noteNumber (events sq ! i))" "addEvent sq i prev g"] i r
  show ?case
    by (subst (1 2 3) addEventIndexOn.simps)
      (simp add: countSum_addEvent insertSequence_addEvent len del: of_nat_diff)
qed

lemma totals_addSequenceOn_overflow:
  assumes "room stack < length (filter (\<lambda>ev. subtype ev = noteOn) (events sq))"
  shows "fst (addSequenceOn stack sq g) = Some RangeError
   \<and> countSum (snd (addSequenceOn stack sq g))
       = countSum g + int (room stack)
         + (if overflow stack \<in> {EnsureNode, AddEventIndex} then 0 else 1)
   \<and> length (insertSequence (snd (addSequenceOn stack sq g)))
       = length (insertSequence g) + room stack
         + (if overflow stack
               \<in> {EnsureNode, PushSequences, PushInsertSequence, AddEventIndex}
            then 0 else 1)"
proof -
  from assms have "room stack
      < length (events (sq\<lparr>events := filter (\<lambda>ev. subtype ev = noteOn) (events sq)\<rparr>))"
    by simp
  from totals_overflow [OF this, of 0 None g] show ?thesis
    by (simp add: addSequenceOn_def)
qed

text \<open>
  Claim C8, as amended.  After any series of \<open>addSequence\<close> calls on a new graph, each on
  a call stack with room for a frame of \<open>_addEventIndex\<close> for every note-on event of its
  sequence and for the last frame, every call returns, the counts of the entries of \<open>getAllNotes\<close> add up to the
  length of \<open>getInsertSequence\<close>, and that length is the number of note-on events in
  the sequences that were added.
\<close>

theorem counts_conserved_on_call_stack:
  assumes "list_all fits calls"
  shows "fst (addSequencesOn calls (constructor nm)) = None
       \<and> sum_list (map RankedNoteElement.count
              (getAllNotes (snd (addSequencesOn calls (constructor nm)))))
           = int (length (getInsertSequence (snd (addSequencesOn calls (constructor nm)))))
       \<and> length (getInsertSequence (snd (addSequencesOn calls (constructor nm))))
           = noteOnCount (map snd calls)"
proof -
  have "countSum (constructor nm) = 0" "insertSequence (constructor nm) = []"
    by (simp_all add: countSum_def constructor_def)
  with totals_addSequences [of "map snd calls" "constructor nm"] show ?thesis
    by (simp add: addSequencesOn_returns [OF assms] sum_getAllNotes getInsertSequence_def)
qed

theorem counts_conserved_on_call_stack_witness:
  "list_all fits [(exampleStack, exampleSequence), (exampleStack, tieSequence)]
   \<and> noteOnCount (map snd [(exampleStack, exampleSequence), (exampleStack, tieSequence)]) = 7
   \<and> fst (addSequencesOn [(exampleStack, exampleSequence), (exampleStack, tieSequence)]
          (constructor ''example'')) = None
   \<and> sum_list (map RankedNoteElement.count
          (getAllNotes (snd (addSequencesOn
             [(exampleStack, exampleSequence), (exampleStack, tieSequence)]
             (constructor ''example'')))))
       = int (length (getInsertSequence (snd (addSequencesOn
             [(exampleStack, exampleSequence), (exampleStack, tieSequence)]
             (constructor ''example'')))))
   \<and> length (getInsertSequence (snd (addSequencesOn
          [(exampleStack, exampleSequence), (exampleStack, tieSequence)]
          (constructor ''example''))))
       = noteOnCount (map snd [(exampleStack, exampleSequence), (exampleStack, tieSequence)])"
proof -
  have a: "list_all fits [(exampleStack, exampleSequence), (exampleStack, tieSequence)]"
    by (simp add: fits_def exampleStack_def exampleSequence_def tieSequence_def
        noteOnEvent_def noteOffEvent_def)
  have b: "noteOnCount (map snd [(exampleStack, exampleSequence), (exampleStack, tieSequence)])
      = 7"
    by (simp add: noteOnCount_def exampleSequence_def tieSequence_def
        noteOnEvent_def noteOffEvent_def)
  from counts_conserved_on_call_stack [OF a, of "''example''"] a b show ?thesis
    by blast
qed

text \<open>
  A clip of 8000 note-on events on a call stack with room for 7500 frames: the call
  raises, and when the call that does not fit is the push to the insertion log, the node
  has counted 7501 notes, the log holds 7500, and neither is the 8000 of the clip.
\<close>

theorem counts_not_conserved_on_overflow:
  "noteOnCount [longSequence] = 8000
   \<and> fst (addSequencesOn [(exampleStack, longSequence)] (constructor ''example''))
       = Some RangeError
   \<and> sum_list (map RankedNoteElement.count
          (getAllNotes (snd (addSequencesOn [(exampleStack, longSequence)]
             (constructor ''example'')))))
       = 7501
   \<and> length (getInsertSequence (snd (addSequencesOn [(exampleStack, longSequence)]
          (constructor ''example''))))
       = 7500"
proof -
  have n: "length (filter (\<lambda>ev. subtype ev = noteOn) (events longSequence)) = 8000"
    by (simp add: longSequence_def noteOnEvent_def)
  then have a: "noteOnCount [longSequence] = 8000"
    by (simp add: noteOnCount_def)
  from n have "room exampleStack
      < length (filter (\<lambda>ev. subtype ev = noteOn) (events longSequence))"
    by (simp add: exampleStack_def)
  from totals_addSequenceOn_overflow [OF this, of "constructor ''example''"]
  have r: "fst (addSequenceOn exampleStack longSequence (constructor ''example''))
        = Some RangeError"
    and c: "countSum (snd (addSequenceOn exampleStack longSequence (constructor ''example'')))
        = 7501"
    and l: "length (insertSequence
          (snd (addSequenceOn exampleStack longSequence (constructor ''example'')))) = 7500"
    by (simp_all add: exampleStack_def countSum_def constructor_def)
  have s: "addSequencesOn [(exampleStack, longSequence)] (constructor ''example'')
      = addSequenceOn exampleStack longSequence (constructor ''example'')"
    using r by (cases "addSequenceOn exampleStack longSequence (constructor ''example'')")
      (auto split: option.splits)
  show ?thesis
    unfolding s using a r c l by (simp add: sum_getAllNotes getInsertSequence_def)
qed

subsection \<open>The recorded occurrences\<close>

lemma sequencesOf_addEvent:
  "sequencesOf (addEvent sq i prev g) k =
     sequencesOf g k
       @ (if k = noteNumber (events sq ! i) then [\<lparr>eventIndex = i, sequence = sq\<rparr>] else [])"
  by (cases prev)
    (auto simp: sequencesOf_def addEvent_def Let_def map_of_map_entry map_of_ensureMappedValue
      split: option.splits)

lemma occurrences_stop: "\<not> i < length (events sq) \<Longrightarrow> occurrences sq i k = []"
  by (simp add: occurrences_def)

lemma occurrences_step:
  "i < length (events sq) \<Longrightarrow>
   occurrences sq i k =
     (if k = noteNumber (events sq ! i) then [\<lparr>eventIndex = i, sequence = sq\<rparr>] else [])
       @ occurrences sq (i + 1) k"
  by (auto simp: occurrences_def upt_conv_Cons)

lemma sequencesOf_addEventIndex:
  "sequencesOf (addEventIndex sq i prev g) k = sequencesOf g k @ occurrences sq i k"
proof (induction "length (events sq) - i" arbitrary: i prev g)
  case 0
  then show ?case by (subst addEventIndex_step) (simp add: occurrences_stop)
next
  case (Suc n)
  from Suc.hyps(2) have i: "i < length (events sq)" and n: "n = length (events sq) - (i + 1)"
    by simp_all
  from Suc.hyps(1) [OF n, of "Some (noteNumber (events sq ! i))" "addEvent sq i prev g"] i
  show ?case
    by (subst addEventIndex_step) (simp add: sequencesOf_addEvent occurrences_step [OF i])
qed

lemma sequencesOf_addSequences:
  "sequencesOf (addSequences ss g) k =
     sequencesOf g k @ concat (map (\<lambda>sq. occurrences (noteOnSequence sq) 0 k) ss)"
proof (induction ss arbitrary: g)
  case Nil
  show ?case by (simp add: addSequences_Nil)
next
  case (Cons sq ss)
  show ?case
    by (simp add: addSequences_Cons Cons.IH addSequence_noteOnSequence
        sequencesOf_addEventIndex)
qed

lemma sequencesOf_constructor: "sequencesOf (constructor nm) k = []"
  by (simp add: sequencesOf_def constructor_def)

lemma getSequencesForNote_sequencesOf:
  "getSequencesForNote g k partial =
     mapM (\<lambda>element. if partial = False then Inr (sequence element)
                      else partialSequence element)
       (sequencesOf g k)"
  by (simp add: getSequencesForNote_def sequencesOf_def split: option.splits)

lemma mapM_Inr: "(\<And>x. x \<in> set xs \<Longrightarrow> f x = Inr (h x)) \<Longrightarrow> mapM f xs = Inr (map h xs)"
  by (induction xs) simp_all

lemma length_filter_nth:
  "length (filter (\<lambda>j. P (xs ! j)) [0 ..< length xs]) = length (filter P xs)"
proof -
  have "filter P xs = filter P (map (nth xs) [0 ..< length xs])"
    by (simp add: map_nth)
  also have "\<dots> = map (nth xs) (filter (\<lambda>j. P (xs ! j)) [0 ..< length xs])"
    by (simp add: filter_map comp_def)
  finally show ?thesis by simp
qed

lemma sequence_occurrences:
  "map sequence (occurrences sq 0 k) =
     replicate (length (filter (\<lambda>ev. noteNumber ev = k) (events sq))) sq"
  using length_filter_nth [of "\<lambda>ev. noteNumber ev = k" "events sq"]
  by (simp add: occurrences_def comp_def map_replicate_const)

text \<open>
  Claim C2, as amended.  After any series of \<open>addSequence\<close> calls on a new graph,
  \<open>getSequencesForNote\<close> with \<open>partial = false\<close> returns, sequence by sequence in the
  order they were added, one entry for each note-on event of the sequence that carries the
  note; the entry is the copy of the sequence that the graph stored, which has the
  sequence's duration and its note-on events only.  It is the source sequence unchanged
  only when that sequence holds no other events.
\<close>

theorem getSequencesForNote_full_returns_stored_copies:
  "getSequencesForNote (addSequences ss (constructor nm)) k False =
     Inr (concat (map
       (\<lambda>sq. replicate
          (length (filter (\<lambda>ev. subtype ev = noteOn \<and> noteNumber ev = k) (events sq)))
          (sq\<lparr>events := filter (\<lambda>ev. subtype ev = noteOn) (events sq)\<rparr>))
       ss))"
proof -
  have "getSequencesForNote (addSequences ss (constructor nm)) k False =
      Inr (map sequence (sequencesOf (addSequences ss (constructor nm)) k))"
    by (simp add: getSequencesForNote_sequencesOf mapM_Inr)
  also have "map sequence (sequencesOf (addSequences ss (constructor nm)) k) =
      concat (map (\<lambda>sq. map sequence (occurrences (noteOnSequence sq) 0 k)) ss)"
    by (simp add: sequencesOf_addSequences sequencesOf_constructor map_concat comp_def)
  also have "\<dots> = concat (map
       (\<lambda>sq. replicate
          (length (filter (\<lambda>ev. subtype ev = noteOn \<and> noteNumber ev = k) (events sq)))
          (sq\<lparr>events := filter (\<lambda>ev. subtype ev = noteOn) (events sq)\<rparr>))
       ss)"
    by (simp add: sequence_occurrences noteOnSequence_def conj_commute)
  finally show ?thesis .
qed

text \<open>
  The example clip holds 60 twice; the two entries returned for 60 are not the clip, whose
  event list has the note-off events too.
\<close>

theorem getSequencesForNote_full_not_source:
  "getSequencesForNote (addSequence exampleSequence (constructor ''example'')) 60 False =
     Inr [\<lparr>duration = 30, events = [noteOnEvent 60 0, noteOnEvent 62 10, noteOnEvent 60 20]\<rparr>,
          \<lparr>duration = 30, events = [noteOnEvent 60 0, noteOnEvent 62 10, noteOnEvent 60 20]\<rparr>]
   \<and> getSequencesForNote (addSequence exampleSequence (constructor ''example'')) 60 False
       \<noteq> Inr [exampleSequence, exampleSequence]"
  by code_simp

lemma partialSequence_in_range:
  "eventIndex element < length (events (sequence element)) \<Longrightarrow>
   partialSequence element =
     Inr \<lparr>duration = duration (sequence element)
             - (offset (events (sequence element) ! eventIndex element)
                - offset (events (sequence element) ! 0)),
          events = drop (eventIndex element) (events (sequence element))\<rparr>"
  by (cases "events (sequence element)") (simp_all add: partialSequence_def offsetAt_def Let_def)

lemma occurrences_in_range:
  "element \<in> set (occurrences sq i k) \<Longrightarrow>
   eventIndex element < length (events (sequence element))"
  by (auto simp: occurrences_def)

lemma sequencesOf_in_range:
  assumes "element \<in> set (sequencesOf (addSequences ss (constructor nm)) k)"
  shows "eventIndex element < length (events (sequence element))"
  using assms
  by (auto simp: sequencesOf_addSequences sequencesOf_constructor dest: occurrences_in_range)

text \<open>
  Claim C3, as amended.  For a sequence that was added and has a note-on event, and the
  note of its first note-on event, \<open>getSequencesForNote\<close> with \<open>partial = true\<close>
  returns without an error, and among its results is one with the duration of the
  sequence and with the note-on events of the sequence as its event list.
\<close>

theorem getSequencesForNote_partial_round_trip:
  assumes "sq \<in> set ss"
    and "filter (\<lambda>ev. subtype ev = noteOn) (events sq) = ev # rest"
  shows "\<exists>rs. getSequencesForNote (addSequences ss (constructor nm)) (noteNumber ev) True = Inr rs
           \<and> (\<exists>r \<in> set rs. duration r = duration sq
                 \<and> events r = filter (\<lambda>ev. subtype ev = noteOn) (events sq))"
proof -
  define g where "g = addSequences ss (constructor nm)"
  define trunc where "trunc = (\<lambda>element :: SequenceElement.
     \<lparr>duration = duration (sequence element)
             - (offset (events (sequence element) ! eventIndex element)
                - offset (events (sequence element) ! 0)),
      events = drop (eventIndex element) (events (sequence element))\<rparr>)"
  define first where "first = \<lparr>eventIndex = 0, sequence = noteOnSequence sq\<rparr>"
  have rs: "getSequencesForNote g (noteNumber ev) True
              = Inr (map trunc (sequencesOf g (noteNumber ev)))"
    unfolding getSequencesForNote_sequencesOf g_def trunc_def
    by (rule mapM_Inr) (simp add: partialSequence_in_range sequencesOf_in_range)
  have "first \<in> set (occurrences (noteOnSequence sq) 0 (noteNumber ev))"
    using assms(2) by (simp add: first_def occurrences_def noteOnSequence_def image_iff)
  with assms(1) have "first \<in> set (sequencesOf g (noteNumber ev))"
    by (auto simp: g_def sequencesOf_addSequences)
  then have "trunc first \<in> set (map trunc (sequencesOf g (noteNumber ev)))"
    by simp
  moreover have "duration (trunc first) = duration sq"
    "events (trunc first) = filter (\<lambda>ev. subtype ev = noteOn) (events sq)"
    by (simp_all add: trunc_def first_def noteOnSequence_def)
  ultimately show ?thesis
    using rs unfolding g_def by blast
qed

theorem getSequencesForNote_partial_round_trip_witness:
  "exampleSequence \<in> set [exampleSequence]
   \<and> filter (\<lambda>ev. subtype ev = noteOn) (events exampleSequence)
       = noteOnEvent 60 0 # [noteOnEvent 62 10, noteOnEvent 60 20]
   \<and> (\<exists>rs. getSequencesForNote (addSequences [exampleSequence] (constructor ''example''))
               (noteNumber (noteOnEvent 60 0)) True = Inr rs
           \<and> (\<exists>r \<in> set rs. duration r = duration exampleSequence
                 \<and> events r = filter (\<lambda>ev. subtype ev = noteOn) (events exampleSequence)))"
proof -
  have a: "exampleSequence \<in> set [exampleSequence]"
    by simp
  have b: "filter (\<lambda>ev. subtype ev = noteOn) (events exampleSequence)
       = noteOnEvent 60 0 # [noteOnEvent 62 10, noteOnEvent 60 20]"
    by (simp add: exampleSequence_def noteOnEvent_def noteOffEvent_def)
  from getSequencesForNote_partial_round_trip [OF a b, of "''example''"] a b show ?thesis
    by blast
qed

text \<open>
  The example clip starts with the note-on event of 60, and neither result for 60 has
  the clip's event list: the note-off events are gone.
\<close>

theorem getSequencesForNote_partial_not_source:
  "getSequencesForNote (addSequence exampleSequence (constructor ''example'')) 60 True =
     Inr [\<lparr>duration = 30, events = [noteOnEvent 60 0, noteOnEvent 62 10, noteOnEvent 60 20]\<rparr>,
          \<lparr>duration = 10, events = [noteOnEvent 60 20]\<rparr>]
   \<and> events exampleSequence \<noteq> [noteOnEvent 60 0, noteOnEvent 62 10, noteOnEvent 60 20]
   \<and> events exampleSequence \<noteq> [noteOnEvent 60 20]
   \<and> events exampleSequence ! 0 = noteOnEvent 60 0"
  by code_simp

subsection \<open>The order of getAllNotes\<close>

lemma insertSequence_addSequences:
  "insertSequence (addSequences ss g) = insertSequence g @ ingestedNotes ss"
proof (induction ss arbitrary: g)
  case Nil
  show ?case by (simp add: addSequences_Nil ingestedNotes_def)
next
  case (Cons sq ss)
  have "insertSequence (addSequence sq g)
          = insertSequence g @ map noteNumber (filter (\<lambda>ev. subtype ev = noteOn) (events sq))"
    by (simp add: addSequence_noteOnSequence totals_addEventIndex noteOnSequence_def)
  with Cons.IH [of "addSequence sq g"] show ?case
    by (simp add: addSequences_Cons ingestedNotes_def)
qed

lemma noteCount_addEvent:
  "noteCount (addEvent sq i prev g) k =
     (if k = noteNumber (events sq ! i)
      then Some (case noteCount g k of None \<Rightarrow> (k, 1) | Some (nt, c) \<Rightarrow> (nt, c + 1))
      else noteCount g k)"
  by (cases prev)
    (auto simp: noteCount_def addEvent_def Let_def map_of_map_entry map_of_ensureMappedValue
      split: option.splits)

lemma distinct_ensureMappedValue:
  "distinct (map fst m) \<Longrightarrow> distinct (map fst (ensureMappedValue m k v))"
  by (simp add: ensureMappedValue_def distinct_update)

lemma distinct_addEvent:
  "distinct (map fst (nodeMap g)) \<Longrightarrow> distinct (map fst (nodeMap (addEvent sq i prev g)))"
  by (cases prev)
    (simp_all add: addEvent_def Let_def distinct_map_entry distinct_ensureMappedValue)

lemma wellKeyed_addEvent:
  assumes "wellKeyed g"
  shows "wellKeyed (addEvent sq i prev g)"
proof -
  have "count_list (insertSequence g) k = 0" if "k \<notin> set (insertSequence g)" for k
    using that by (simp add: count_list_0_iff)
  with assms show ?thesis
    by (auto simp: wellKeyed_def distinct_addEvent noteCount_addEvent insertSequence_addEvent)
qed

lemma wellKeyed_addEventIndex:
  "wellKeyed g \<Longrightarrow> wellKeyed (addEventIndex sq i prev g)"
proof (induction "length (events sq) - i" arbitrary: i prev g)
  case 0
  then show ?case by (subst addEventIndex_step) simp
next
  case (Suc n)
  from Suc.hyps(2) have i: "i < length (events sq)" and n: "n = length (events sq) - (i + 1)"
    by simp_all
  from Suc.hyps(1) [OF n wellKeyed_addEvent [OF Suc.prems]] i
  show ?case by (subst addEventIndex_step) simp
qed

lemma wellKeyed_addSequences: "wellKeyed g \<Longrightarrow> wellKeyed (addSequences ss g)"
proof (induction ss arbitrary: g)
  case Nil
  then show ?case by (simp add: addSequences_Nil)
next
  case (Cons sq ss)
  then show ?case
    by (simp add: addSequences_Cons addSequence_noteOnSequence wellKeyed_addEventIndex)
qed

lemma wellKeyed_constructor: "wellKeyed (constructor nm)"
  by (simp add: wellKeyed_def noteCount_def constructor_def)

lemma wellKeyed_entry:
  assumes "wellKeyed g" and "(k, nd) \<in> set (nodeMap g)"
  shows "Node.note nd = k" and "Node.count nd = int (count_list (insertSequence g) k)"
    and "k \<in> set (insertSequence g)"
proof -
  from assms have "map_of (nodeMap g) k = Some nd"
    by (simp add: wellKeyed_def)
  then have "noteCount g k = Some (Node.note nd, Node.count nd)"
    by (simp add: noteCount_def)
  with assms(1) show "Node.note nd = k" "Node.count nd = int (count_list (insertSequence g) k)"
    "k \<in> set (insertSequence g)"
    by (auto simp: wellKeyed_def split: if_splits)
qed

lemma wellKeyed_known:
  assumes "wellKeyed g" and "k \<in> set (insertSequence g)"
  shows "\<exists>nd. (k, nd) \<in> set (nodeMap g)"
proof -
  from assms have "noteCount g k \<noteq> None"
    by (simp add: wellKeyed_def)
  then obtain nd where "map_of (nodeMap g) k = Some nd"
    by (auto simp: noteCount_def)
  then show ?thesis by (blast dest: map_of_SomeD)
qed

lemma set_getAllNotes:
  assumes "wellKeyed g"
  shows "set (getAllNotes g) =
     (\<lambda>k. \<lparr>RankedNoteElement.count = int (count_list (insertSequence g) k),
            RankedNoteElement.note = k\<rparr>) ` set (insertSequence g)"
proof -
  have "set (getAllNotes g) =
      (\<lambda>p. \<lparr>RankedNoteElement.count = Node.count (snd p),
             RankedNoteElement.note = Node.note (snd p)\<rparr>) ` set (nodeMap g)"
    by (simp add: getAllNotes_def sortBy_def set_ownValues image_image)
  also have "\<dots> = (\<lambda>k. \<lparr>RankedNoteElement.count = int (count_list (insertSequence g) k),
            RankedNoteElement.note = k\<rparr>) ` set (insertSequence g)"
  proof (intro set_eqI iffI)
    fix e
    assume "e \<in> (\<lambda>p. \<lparr>RankedNoteElement.count = Node.count (snd p),
             RankedNoteElement.note = Node.note (snd p)\<rparr>) ` set (nodeMap g)"
    then obtain k nd where "(k, nd) \<in> set (nodeMap g)"
      and "e = \<lparr>RankedNoteElement.count = Node.count nd, RankedNoteElement.note = Node.note nd\<rparr>"
      by auto
    with wellKeyed_entry [OF assms this(1)]
    show "e \<in> (\<lambda>k. \<lparr>RankedNoteElement.count = int (count_list (insertSequence g) k),
            RankedNoteElement.note = k\<rparr>) ` set (insertSequence g)"
      by auto
  next
    fix e
    assume "e \<in> (\<lambda>k. \<lparr>RankedNoteElement.count = int (count_list (insertSequence g) k),
            RankedNoteElement.note = k\<rparr>) ` set (insertSequence g)"
    then obtain k where k: "k \<in> set (insertSequence g)"
      and e: "e = \<lparr>RankedNoteElement.count = int (count_list (insertSequence g) k),
            RankedNoteElement.note = k\<rparr>"
      by auto
    from wellKeyed_known [OF assms k] obtain nd where nd: "(k, nd) \<in> set (nodeMap g)"
      by blast
    from wellKeyed_entry(1,2) [OF assms nd] e
    have "e = \<lparr>RankedNoteElement.count = Node.count (snd (k, nd)),
             RankedNoteElement.note = Node.note (snd (k, nd))\<rparr>"
      by simp
    from this nd show "e \<in> (\<lambda>p. \<lparr>RankedNoteElement.count = Node.count (snd p),
             RankedNoteElement.note = Node.note (snd p)\<rparr>) ` set (nodeMap g)"
      by (rule image_eqI)
  qed
  finally show ?thesis .
qed


lemma ownEntries_array_indices:
  assumes "\<And>p. p \<in> set obj \<Longrightarrow> isArrayIndex (fst p)"
  shows "ownEntries obj = sort_key fst obj"
proof -
  have "filter (\<lambda>p. isArrayIndex (fst p)) obj = obj"
    using assms by (simp add: filter_id_conv)
  moreover have "filter (\<lambda>p. \<not> isArrayIndex (fst p)) obj = []"
    using assms by (simp add: filter_empty_conv)
  ultimately show ?thesis by (simp add: ownEntries_def)
qed

lemma insort_key_ties:
  fixes f :: "'a \<Rightarrow> int"
  assumes "sorted_wrt (\<lambda>a b. f a < f b \<or> (f a = f b \<and> R a b)) ys"
    and "\<And>y. y \<in> set ys \<Longrightarrow> R x y"
  shows "sorted_wrt (\<lambda>a b. f a < f b \<or> (f a = f b \<and> R a b)) (insort_key f x ys)"
  using assms
proof (induction ys)
  case Nil
  show ?case by simp
next
  case (Cons y ys)
  show ?case
  proof (cases "f x \<le> f y")
    case True
    have "f x < f z \<or> (f x = f z \<and> R x z)" if "z \<in> set (y # ys)" for z
    proof -
      from Cons.prems(1) that have "f y \<le> f z" by auto
      with True have "f x \<le> f z" by simp
      moreover have "R x z" using Cons.prems(2) that by simp
      ultimately show ?thesis by auto
    qed
    with True Cons.prems(1) show ?thesis by simp
  next
    case False
    have "sorted_wrt (\<lambda>a b. f a < f b \<or> (f a = f b \<and> R a b)) (insort_key f x ys)"
      using Cons.IH Cons.prems by simp
    moreover have "f y < f z \<or> (f y = f z \<and> R y z)" if "z \<in> set (insort_key f x ys)" for z
      using that False Cons.prems(1) by (auto simp: set_insort_key)
    ultimately show ?thesis using False by simp
  qed
qed

lemma sort_key_ties:
  fixes f :: "'a \<Rightarrow> int"
  assumes "sorted_wrt R xs"
  shows "sorted_wrt (\<lambda>a b. f a < f b \<or> (f a = f b \<and> R a b)) (sort_key f xs)"
  using assms
proof (induction xs)
  case Nil
  show ?case by simp
next
  case (Cons x xs)
  then have "sorted_wrt (\<lambda>a b. f a < f b \<or> (f a = f b \<and> R a b)) (sort_key f xs)"
    and "\<And>y. y \<in> set (sort_key f xs) \<Longrightarrow> R x y"
    by simp_all
  then have "sorted_wrt (\<lambda>a b. f a < f b \<or> (f a = f b \<and> R a b))
      (insort_key f x (sort_key f xs))"
    by (rule insort_key_ties)
  then show ?case by (simp add: sort_key_def)
qed

lemma sorted_keys_strict:
  assumes "distinct (map fst m)"
  shows "sorted_wrt (\<lambda>p q. fst p < fst q) (sort_key fst (m :: (int \<times> 'v) list))"
proof -
  have "sorted (map fst (sort_key fst m))"
    by (rule sorted_sort_key)
  moreover have "distinct (map fst (sort_key fst m))"
    using assms by (simp add: distinct_map)
  ultimately have "sorted_wrt (<) (map fst (sort_key fst m))"
    by (simp add: strict_sorted_iff)
  then show ?thesis by (simp add: sorted_wrt_map)
qed

lemma getAllNotes_rankedBefore:
  assumes g: "wellKeyed g" and idx: "list_all isArrayIndex (insertSequence g)"
  shows "sorted_wrt rankedBefore (getAllNotes g)"
proof -
  define toElement where "toElement = (\<lambda>nd :: Node.
      \<lparr>RankedNoteElement.count = Node.count nd, RankedNoteElement.note = Node.note nd\<rparr>)"
  have keys: "isArrayIndex (fst p)" if "p \<in> set (nodeMap g)" for p
  proof -
    from that have "(fst p, snd p) \<in> set (nodeMap g)" by simp
    from wellKeyed_entry(3) [OF g this] idx show ?thesis
      by (simp add: list_all_iff)
  qed
  from g have "distinct (map fst (nodeMap g))"
    by (simp add: wellKeyed_def)
  then have "sorted_wrt (\<lambda>p q. fst p < fst q) (sort_key fst (nodeMap g))"
    by (rule sorted_keys_strict)
  then have "sorted_wrt (\<lambda>a b. RankedNoteElement.note a < RankedNoteElement.note b)
      (map (\<lambda>p. toElement (snd p)) (sort_key fst (nodeMap g)))"
  proof (rule sorted_wrt_map_mono)
    fix p q
    assume "p \<in> set (sort_key fst (nodeMap g))" "q \<in> set (sort_key fst (nodeMap g))"
      and less: "fst p < fst q"
    then have "(fst p, snd p) \<in> set (nodeMap g)" "(fst q, snd q) \<in> set (nodeMap g)"
      by simp_all
    from wellKeyed_entry(1) [OF g this(1)] wellKeyed_entry(1) [OF g this(2)] less
    show "RankedNoteElement.note (toElement (snd p)) < RankedNoteElement.note (toElement (snd q))"
      by (simp add: toElement_def)
  qed
  then have "sorted_wrt
      (\<lambda>a b. 0 - RankedNoteElement.count a < 0 - RankedNoteElement.count b
         \<or> (0 - RankedNoteElement.count a = 0 - RankedNoteElement.count b
            \<and> RankedNoteElement.note a < RankedNoteElement.note b))
      (sort_key (\<lambda>e. 0 - RankedNoteElement.count e)
         (map (\<lambda>p. toElement (snd p)) (sort_key fst (nodeMap g))))"
    by (rule sort_key_ties)
  then have "sorted_wrt rankedBefore
      (sort_key (\<lambda>e. 0 - RankedNoteElement.count e)
         (map (\<lambda>p. toElement (snd p)) (sort_key fst (nodeMap g))))"
    by (rule sorted_wrt_mono_rel [rotated]) (auto simp: rankedBefore_def)
  moreover have "getAllNotes g =
      sort_key (\<lambda>e. 0 - RankedNoteElement.count e)
         (map (\<lambda>p. toElement (snd p)) (sort_key fst (nodeMap g)))"
    by (simp add: getAllNotes_def sortBy_def ownValues_def ownEntries_array_indices [OF keys]
        toElement_def comp_def)
  ultimately show ?thesis by simp
qed

lemma rankedBefore_unique:
  assumes "sorted_wrt rankedBefore xs" and "sorted_wrt rankedBefore ys" and "set ys = set xs"
  shows "ys = xs"
proof -
  have key: "rankedBefore a b \<Longrightarrow> rankKey a < rankKey b" for a b
    by (auto simp: rankedBefore_def rankKey_def)
  have "sorted_wrt (<) (map rankKey xs)" "sorted_wrt (<) (map rankKey ys)"
    using assms(1,2) by (auto simp: sorted_wrt_map intro: sorted_wrt_mono_rel [rotated] key)
  moreover have "set (map rankKey ys) = set (map rankKey xs)"
    using assms(3) by simp
  ultimately have "map rankKey ys = map rankKey xs"
    by (rule strict_sorted_equal)
  moreover have "inj rankKey"
    by (rule injI) (simp add: rankKey_def)
  ultimately show ?thesis
    by (simp add: inj_map_eq_map)
qed

text \<open>
  Claim C9, as amended.  When every ingested note number is an array index (an integer
  from 0 to \<open>2\<^sup>3\<^sup>2 - 2\<close>, as every MIDI note number is), \<open>getAllNotes\<close> lists a higher
  count first and, among equal counts, the lower note number first; so its result is the
  same for any two series of sequences that bring in the same notes the same number of
  times, whatever the order.
\<close>

theorem getAllNotes_ties_ascending:
  assumes "list_all isArrayIndex (ingestedNotes ss)"
  shows "sorted_wrt rankedBefore (getAllNotes (addSequences ss (constructor nm)))
       \<and> (\<forall>ss' nm'. mset (ingestedNotes ss') = mset (ingestedNotes ss) \<longrightarrow>
              getAllNotes (addSequences ss' (constructor nm'))
                = getAllNotes (addSequences ss (constructor nm)))"
proof -
  have wk: "wellKeyed (addSequences ss (constructor nm))" for ss nm
    by (rule wellKeyed_addSequences [OF wellKeyed_constructor])
  have ins: "insertSequence (addSequences ss (constructor nm)) = ingestedNotes ss" for ss nm
    by (simp add: insertSequence_addSequences constructor_def)
  have sorted: "sorted_wrt rankedBefore (getAllNotes (addSequences ss (constructor nm)))"
    if "list_all isArrayIndex (ingestedNotes ss)" for ss nm
    using that by (intro getAllNotes_rankedBefore wk) (simp add: ins)
  have "getAllNotes (addSequences ss' (constructor nm'))
          = getAllNotes (addSequences ss (constructor nm))"
    if same: "mset (ingestedNotes ss') = mset (ingestedNotes ss)" for ss' nm'
  proof -
    from same have sets: "set (ingestedNotes ss') = set (ingestedNotes ss)"
      by (rule mset_eq_setD)
    with assms have "list_all isArrayIndex (ingestedNotes ss')"
      by (simp add: list_all_iff)
    moreover have "count_list (ingestedNotes ss') k = count_list (ingestedNotes ss) k" for k
      using same by (metis count_mset)
    then have "set (getAllNotes (addSequences ss' (constructor nm')))
        = set (getAllNotes (addSequences ss (constructor nm)))"
      by (simp add: set_getAllNotes [OF wk] ins sets)
    ultimately show ?thesis
      by (intro rankedBefore_unique sorted assms)
  qed
  with sorted [OF assms] show ?thesis by blast
qed

theorem getAllNotes_ties_ascending_witness:
  "list_all isArrayIndex (ingestedNotes [tieSequence])
   \<and> sorted_wrt rankedBefore (getAllNotes (addSequences [tieSequence] (constructor ''example'')))
   \<and> mset (ingestedNotes [tieSequenceReordered]) = mset (ingestedNotes [tieSequence])
   \<and> getAllNotes (addSequences [tieSequenceReordered] (constructor ''other''))
       = getAllNotes (addSequences [tieSequence] (constructor ''example''))
   \<and> getAllNotes (addSequences [tieSequence] (constructor ''example''))
       = [\<lparr>RankedNoteElement.count = 2, RankedNoteElement.note = 60\<rparr>,
          \<lparr>RankedNoteElement.count = 1, RankedNoteElement.note = 62\<rparr>,
          \<lparr>RankedNoteElement.count = 1, RankedNoteElement.note = 64\<rparr>]"
proof -
  have a: "list_all isArrayIndex (ingestedNotes [tieSequence])"
    by code_simp
  have b: "mset (ingestedNotes [tieSequenceReordered]) = mset (ingestedNotes [tieSequence])"
    by (simp add: ingestedNotes_def tieSequence_def tieSequenceReordered_def noteOnEvent_def)
  have c: "getAllNotes (addSequences [tieSequence] (constructor ''example''))
       = [\<lparr>RankedNoteElement.count = 2, RankedNoteElement.note = 60\<rparr>,
          \<lparr>RankedNoteElement.count = 1, RankedNoteElement.note = 62\<rparr>,
          \<lparr>RankedNoteElement.count = 1, RankedNoteElement.note = 64\<rparr>]"
    by code_simp
  from getAllNotes_ties_ascending [OF a, of "''example''"] a b c show ?thesis
    by blast
qed

text \<open>
  Negative note numbers are no array indices: the object lists them in insertion order,
  so \<open>-1\<close> comes before \<open>-2\<close> when it was inserted first, and after it otherwise.
\<close>

theorem getAllNotes_ties_insertion_order:
  "getAllNotes (addSequence negativeSequence (constructor ''example''))
     = [\<lparr>RankedNoteElement.count = 1, RankedNoteElement.note = - 1\<rparr>,
        \<lparr>RankedNoteElement.count = 1, RankedNoteElement.note = - 2\<rparr>]
   \<and> getAllNotes (addSequence negativeSequenceReordered (constructor ''example''))
     = [\<lparr>RankedNoteElement.count = 1, RankedNoteElement.note = - 2\<rparr>,
        \<lparr>RankedNoteElement.count = 1, RankedNoteElement.note = - 1\<rparr>]"
  by code_simp

end
